theory Spec2Isabelle
  imports Main
begin

section \<open>The Tetris engine of src/app/tetris/tetris.ts\<close>

text \<open>
  The component is modelled by explicit state passing: every method of the class
  \<^verbatim>\<open>Tetris\<close> becomes a function from the state before the call to the state after it.
  The canvas, the animation frame handle and the wall clock are left out; the random
  source is a parameter.

  JavaScript values are modelled as follows.
  \<^item> A number is an \<open>int\<close>: the numbers of the engine are integers, and the loss of
    precision of a JavaScript number beyond \<open>2^53\<close> is left out.
  \<^item> Reading an array past its end yields \<^verbatim>\<open>undefined\<close>, and writing past the end of
    an array leaves holes, which read as \<^verbatim>\<open>undefined\<close>. An array element that may be
    a hole is an \<open>option\<close>, with \<open>None\<close> for the hole.
  \<^item> An uncaught exception is \<open>Inl\<close> of the result type \<open>error + 'a\<close>.
\<close>

subsection \<open>JavaScript arrays and truthiness\<close>

datatype error = TypeError | SyntaxError

text \<open>\<^verbatim>\<open>xs[i]\<close> on an array without holes: \<open>None\<close> is \<^verbatim>\<open>undefined\<close>.\<close>

definition arrayGet :: "'a list \<Rightarrow> int \<Rightarrow> 'a option" where
  "arrayGet xs i = (if 0 \<le> i \<and> nat i < length xs then Some (xs ! nat i) else None)"

text \<open>\<^verbatim>\<open>xs[i]\<close> on an array whose elements may be holes.\<close>

definition cellGet :: "'a option list \<Rightarrow> int \<Rightarrow> 'a option" where
  "cellGet xs i = (case arrayGet xs i of None \<Rightarrow> None | Some c \<Rightarrow> c)"

text \<open>
  \<^verbatim>\<open>xs[i] = v\<close>: inside the array the element is replaced; past the end the array grows
  to length \<open>i + 1\<close>, the elements between being holes; a negative index sets a property
  that is no element of the array.
\<close>

definition cellSet :: "'a option list \<Rightarrow> int \<Rightarrow> 'a \<Rightarrow> 'a option list" where
  "cellSet xs i v =
     (if i < 0 then xs
      else if nat i < length xs then xs[nat i := Some v]
      else xs @ replicate (nat i - length xs) None @ [Some v])"

text \<open>Truthiness of a number (or \<^verbatim>\<open>undefined\<close>) and of a string (or \<^verbatim>\<open>undefined\<close>).\<close>

fun truthyNum :: "int option \<Rightarrow> bool" where
  "truthyNum None = False"
| "truthyNum (Some n) = (n \<noteq> 0)"

fun truthyStr :: "string option \<Rightarrow> bool" where
  "truthyStr None = False"
| "truthyStr (Some s) = (s \<noteq> [])"

subsection \<open>Data\<close>

text \<open>\<^verbatim>\<open>interface Position { x: number; y: number }\<close>\<close>

record Position =
  pos_x :: int
  pos_y :: int

text \<open>\<^verbatim>\<open>interface Tetromino { shape: number[][]; color: string }\<close>\<close>

type_synonym matrix = "int option list list"

record Tetromino =
  shape :: matrix
  color :: string

text \<open>A row of the board, and the board: \<^verbatim>\<open>string[][]\<close>, the empty string for a free cell.\<close>

type_synonym boardRow = "string option list"

type_synonym boardT = "boardRow list"

text \<open>
  The fields of the class that the engine reads and writes. \<open>tetrisHighScore\<close> is the entry
  of that name in the browser's local storage (the decimal string is identified with the
  number it prints).
\<close>

record Tetris =
  board :: boardT
  currentPiece :: "Tetromino option"
  currentPosition :: Position
  dropInterval :: int
  score :: int
  level :: int
  lines :: int
  highScore :: int
  gameStarted :: bool
  gameOver :: bool
  isPaused :: bool
  tetrisHighScore :: "int option"

definition cols :: int where
  "cols = 10"

definition rows :: int where
  "rows = 20"

text \<open>A matrix literal of the source: every element is a number.\<close>

definition numbers :: "int list list \<Rightarrow> matrix" where
  "numbers m = map (map Some) m"

text \<open>The catalog \<^verbatim>\<open>tetrominoes\<close>, in the order of its keys.\<close>

definition tetrominoes :: "(string \<times> Tetromino) list" where
  "tetrominoes =
    [(''I'', \<lparr>shape = numbers [[0, 0, 0, 0],
                               [1, 1, 1, 1],
                               [0, 0, 0, 0],
                               [0, 0, 0, 0]], color = ''#00f0f0''\<rparr>),
     (''J'', \<lparr>shape = numbers [[1, 0, 0],
                               [1, 1, 1],
                               [0, 0, 0]], color = ''#0000f0''\<rparr>),
     (''L'', \<lparr>shape = numbers [[0, 0, 1],
                               [1, 1, 1],
                               [0, 0, 0]], color = ''#f0a000''\<rparr>),
     (''O'', \<lparr>shape = numbers [[1, 1],
                               [1, 1]], color = ''#f0f000''\<rparr>),
     (''S'', \<lparr>shape = numbers [[0, 1, 1],
                               [1, 1, 0],
                               [0, 0, 0]], color = ''#00f000''\<rparr>),
     (''T'', \<lparr>shape = numbers [[0, 1, 0],
                               [1, 1, 1],
                               [0, 0, 0]], color = ''#a000f0''\<rparr>),
     (''Z'', \<lparr>shape = numbers [[1, 1, 0],
                               [0, 1, 1],
                               [0, 0, 0]], color = ''#f00000''\<rparr>)]"

text \<open>\<^verbatim>\<open>Object.values(this.tetrominoes)\<close>\<close>

definition pieces :: "Tetromino list" where
  "pieces = map snd tetrominoes"

subsection \<open>The board\<close>

text \<open>\<^verbatim>\<open>Array(this.cols).fill('')\<close>\<close>

definition emptyRow :: boardRow where
  "emptyRow = replicate (nat cols) (Some [])"

text \<open>\<^verbatim>\<open>initializeBoard\<close>\<close>

definition initializeBoard :: "Tetris \<Rightarrow> Tetris" where
  "initializeBoard s = s\<lparr>board := replicate (nat rows) emptyRow\<rparr>"

text \<open>
  The pairs \<open>(row, col)\<close> that the two nested \<^verbatim>\<open>for\<close> loops of \<^verbatim>\<open>isValidMove\<close>,
  \<^verbatim>\<open>lockPiece\<close> and \<^verbatim>\<open>draw\<close> visit, in the order they visit them.
\<close>

definition cellsOf :: "matrix \<Rightarrow> (nat \<times> nat) list" where
  "cellsOf sh =
     concat (map (\<lambda>row. map (\<lambda>col. (row, col)) [0..<length (sh ! row)]) [0..<length sh])"

text \<open>
  The body of the loops of \<^verbatim>\<open>isValidMove\<close>, over the cells still to visit. A
  \<^verbatim>\<open>return\<close> ends the scan; \<^verbatim>\<open>this.board[newY][newX]\<close> throws when the board has no
  row \<open>newY\<close>.
\<close>

fun checkCells :: "boardT \<Rightarrow> matrix \<Rightarrow> int \<Rightarrow> int \<Rightarrow> (nat \<times> nat) list \<Rightarrow> error + bool" where
  "checkCells b sh x y [] = Inr True"
| "checkCells b sh x y ((row, col) # rest) =
     (if truthyNum (sh ! row ! col) then
        (let newX = x + int col; newY = y + int row in
         if newX < 0 \<or> newX \<ge> cols \<or> newY \<ge> rows then Inr False
         else if newY \<ge> 0 then
           (case arrayGet b newY of
              None \<Rightarrow> Inl TypeError
            | Some r \<Rightarrow>
                if truthyStr (cellGet r newX) then Inr False
                else checkCells b sh x y rest)
         else checkCells b sh x y rest)
      else checkCells b sh x y rest)"

definition isValidMove :: "Tetris \<Rightarrow> int \<Rightarrow> int \<Rightarrow> error + bool" where
  "isValidMove s x y =
     (case currentPiece s of
        None \<Rightarrow> Inr False
      | Some p \<Rightarrow> checkCells (board s) (shape p) x y (cellsOf (shape p)))"

text \<open>The loops of \<^verbatim>\<open>lockPiece\<close>; \<^verbatim>\<open>this.board[y][x] = color\<close> throws when row \<open>y\<close> is missing.\<close>

fun lockCells :: "boardT \<Rightarrow> Tetromino \<Rightarrow> Position \<Rightarrow> (nat \<times> nat) list \<Rightarrow> error + boardT" where
  "lockCells b p pos [] = Inr b"
| "lockCells b p pos ((row, col) # rest) =
     (if truthyNum (shape p ! row ! col) then
        (let y = pos_y pos + int row; x = pos_x pos + int col in
         if y \<ge> 0 then
           (case arrayGet b y of
              None \<Rightarrow> Inl TypeError
            | Some r \<Rightarrow> lockCells (b[nat y := cellSet r x (color p)]) p pos rest)
         else lockCells b p pos rest)
      else lockCells b p pos rest)"

definition lockPiece :: "Tetris \<Rightarrow> error + Tetris" where
  "lockPiece s =
     (case currentPiece s of
        None \<Rightarrow> Inr s
      | Some p \<Rightarrow>
          (case lockCells (board s) p (currentPosition s) (cellsOf (shape p)) of
             Inl e \<Rightarrow> Inl e
           | Inr b \<Rightarrow> Inr (s\<lparr>board := b\<rparr>)))"

text \<open>\<^verbatim>\<open>row.every(cell => cell !== '')\<close>: \<^verbatim>\<open>every\<close> skips holes.\<close>

definition isFull :: "boardRow \<Rightarrow> bool" where
  "isFull r = list_all (\<lambda>cell. cell \<noteq> Some []) r"

lemma emptyRow_not_full: "\<not> isFull emptyRow"
  by (simp add: isFull_def emptyRow_def cols_def list_all_iff)

lemma full_rows_removed:
  assumes "r < length b" and "isFull (b ! r)"
  shows "length (filter isFull (emptyRow # take r b @ drop (Suc r) b)) < length (filter isFull b)"
proof -
  have "b = take r b @ b ! r # drop (Suc r) b"
    using assms(1) by (rule id_take_nth_drop)
  then have "filter isFull b = filter isFull (take r b) @ b ! r # filter isFull (drop (Suc r) b)"
    using assms(2) by (metis filter.simps(2) filter_append)
  then show ?thesis
    by (simp add: emptyRow_not_full)
qed

text \<open>
  The \<^verbatim>\<open>for\<close> loop of \<^verbatim>\<open>clearLines\<close>, from \<open>row\<close> down to 0, with the count so far. A
  full row is cut out (\<^verbatim>\<open>splice\<close>), an empty row is put on top (\<^verbatim>\<open>unshift\<close>), and the
  same index is looked at again (\<^verbatim>\<open>row++\<close> before the loop's \<^verbatim>\<open>row--\<close>).
\<close>

function clearLoop :: "boardT \<Rightarrow> int \<Rightarrow> int \<Rightarrow> error + (boardT \<times> int)" where
  "clearLoop b row linesCleared =
     (if row \<ge> 0 then
        (case arrayGet b row of
           None \<Rightarrow> Inl TypeError
         | Some r \<Rightarrow>
             if isFull r then
               clearLoop (emptyRow # take (nat row) b @ drop (Suc (nat row)) b) row (linesCleared + 1)
             else clearLoop b (row - 1) linesCleared)
      else Inr (b, linesCleared))"
  by pat_completeness auto
termination
proof (relation "measures [\<lambda>(b, row, n). length (filter isFull b), \<lambda>(b, row, n). nat (row + 1)]")
  show "wf (measures [\<lambda>(b, row, n). length (filter isFull b), \<lambda>(b, row, n). nat (row + 1)])"
    by simp
next
  fix b :: boardT and row linesCleared :: int and r
  assume "0 \<le> row" "arrayGet b row = Some r" "isFull r"
  then have "nat row < length b" "isFull (b ! nat row)"
    by (auto simp: arrayGet_def split: if_splits)
  then show "((emptyRow # take (nat row) b @ drop (Suc (nat row)) b, row, linesCleared + 1),
             (b, row, linesCleared))
           \<in> measures [\<lambda>(b, row, n). length (filter isFull b), \<lambda>(b, row, n). nat (row + 1)]"
    using full_rows_removed [of "nat row" b] by simp
next
  fix b :: boardT and row linesCleared :: int and r
  assume "0 \<le> row" "arrayGet b row = Some r" "\<not> isFull r"
  then show "((b, row - 1, linesCleared), (b, row, linesCleared))
           \<in> measures [\<lambda>(b, row, n). length (filter isFull b), \<lambda>(b, row, n). nat (row + 1)]"
    by simp
qed

declare clearLoop.simps [simp del]

text \<open>\<^verbatim>\<open>clearLines\<close>: the loop, then the counters.\<close>

definition clearLines :: "Tetris \<Rightarrow> error + (Tetris \<times> int)" where
  "clearLines s =
     (case clearLoop (board s) (rows - 1) 0 of
        Inl e \<Rightarrow> Inl e
      | Inr (b, linesCleared) \<Rightarrow>
          (let s1 = s\<lparr>board := b\<rparr> in
           if linesCleared > 0 then
             (let s2 = s1\<lparr>lines := lines s1 + linesCleared\<rparr>;
                  newLevel = lines s2 div 10 + 1
              in if newLevel \<noteq> level s2 then
                   Inr (s2\<lparr>level := newLevel,
                           dropInterval := max 100 (1000 - (newLevel - 1) * 100)\<rparr>,
                        linesCleared)
                 else Inr (s2, linesCleared))
           else Inr (s1, linesCleared)))"

subsection \<open>Scoring\<close>

definition points :: "int list" where
  "points = [0, 100, 300, 500, 800]"

text \<open>\<^verbatim>\<open>updateScore\<close>; \<^verbatim>\<open>points[linesCleared] || 0\<close> is 0 when the read is \<^verbatim>\<open>undefined\<close> or 0.\<close>

definition updateScore :: "int \<Rightarrow> Tetris \<Rightarrow> Tetris" where
  "updateScore linesCleared s =
     (let baseScore = (case arrayGet points linesCleared of
                         None \<Rightarrow> 0
                       | Some p \<Rightarrow> if p \<noteq> 0 then p else 0);
          levelMultiplier = level s;
          s1 = s\<lparr>score := score s + baseScore * levelMultiplier\<rparr>
      in if score s1 > highScore s1
         then s1\<lparr>highScore := score s1, tetrisHighScore := Some (score s1)\<rparr>
         else s1)"

subsection \<open>The active piece\<close>

text \<open>\<^verbatim>\<open>endGame\<close>, without the drawing.\<close>

definition endGame :: "Tetris \<Rightarrow> Tetris" where
  "endGame s = s\<lparr>gameStarted := False, gameOver := True\<rparr>"

text \<open>
  \<^verbatim>\<open>spawnPiece\<close>. The argument \<open>r\<close> is the value of
  \<^verbatim>\<open>Math.floor(Math.random() * pieces.length)\<close>, one of 0 to 6. Were it larger,
  \<^verbatim>\<open>JSON.parse(JSON.stringify(undefined))\<close> would throw a SyntaxError. The copy of a
  catalog entry is an object, so the test \<^verbatim>\<open>if (this.currentPiece)\<close> succeeds;
  \<^verbatim>\<open>shape[0].length\<close> throws when the shape has no row.
\<close>

definition spawnPiece :: "nat \<Rightarrow> Tetris \<Rightarrow> error + Tetris" where
  "spawnPiece r s =
     (case arrayGet pieces (int r) of
        None \<Rightarrow> Inl SyntaxError
      | Some randomPiece \<Rightarrow>
          (case shape randomPiece of
             [] \<Rightarrow> Inl TypeError
           | row0 # _ \<Rightarrow>
               (let s1 = s\<lparr>currentPiece := Some randomPiece,
                            currentPosition :=
                              \<lparr>pos_x = cols div 2 - int (length row0) div 2, pos_y = 0\<rparr>\<rparr>
                in case isValidMove s1 (pos_x (currentPosition s1)) (pos_y (currentPosition s1)) of
                     Inl e \<Rightarrow> Inl e
                   | Inr valid \<Rightarrow> if \<not> valid then Inr (endGame s1) else Inr s1)))"

text \<open>
  The statements that \<^verbatim>\<open>movePiece\<close> and \<^verbatim>\<open>hardDrop\<close> both end with: lock the piece,
  clear the lines, score them if there are any, spawn the next piece.
\<close>

definition lockAndSpawn :: "nat \<Rightarrow> Tetris \<Rightarrow> error + Tetris" where
  "lockAndSpawn r s =
     (case lockPiece s of
        Inl e \<Rightarrow> Inl e
      | Inr s1 \<Rightarrow>
          (case clearLines s1 of
             Inl e \<Rightarrow> Inl e
           | Inr (s2, linesCleared) \<Rightarrow>
               spawnPiece r (if linesCleared > 0 then updateScore linesCleared s2 else s2)))"

text \<open>\<^verbatim>\<open>movePiece\<close>; \<open>r\<close> is the random choice of the piece that is spawned after a lock.\<close>

definition movePiece :: "int \<Rightarrow> int \<Rightarrow> nat \<Rightarrow> Tetris \<Rightarrow> error + Tetris" where
  "movePiece dx dy r s =
     (case currentPiece s of
        None \<Rightarrow> Inr s
      | Some _ \<Rightarrow>
          (let newX = pos_x (currentPosition s) + dx;
               newY = pos_y (currentPosition s) + dy
           in case isValidMove s newX newY of
                Inl e \<Rightarrow> Inl e
              | Inr valid \<Rightarrow>
                  if valid then Inr (s\<lparr>currentPosition := \<lparr>pos_x = newX, pos_y = newY\<rparr>\<rparr>)
                  else if dy > 0 then lockAndSpawn r s
                  else Inr s))"

text \<open>
  \<^verbatim>\<open>rotate\<close>: the array of \<open>n\<close> rows of \<open>n\<close> zeros, then the two nested loops. The writes
  are inside the new matrix; a read past the end of a row of \<open>matrix\<close> is
  \<^verbatim>\<open>undefined\<close>.
\<close>

definition rotate :: "matrix \<Rightarrow> matrix" where
  "rotate m =
     (let n = length m in
      fold (\<lambda>i. fold (\<lambda>j rotated.
                         rotated[j := (rotated ! j)[n - 1 - i := cellGet (m ! i) (int j)]])
                      [0..<n])
           [0..<n] (replicate n (replicate n (Some 0))))"

text \<open>
  The wall-kick loop of \<^verbatim>\<open>rotatePiece\<close> over the offsets still to try; the flag is
  \<^verbatim>\<open>kicked\<close>.
\<close>

fun kickLoop :: "Tetris \<Rightarrow> int list \<Rightarrow> error + (Tetris \<times> bool)" where
  "kickLoop s [] = Inr (s, False)"
| "kickLoop s (offset # rest) =
     (case isValidMove s (pos_x (currentPosition s) + offset) (pos_y (currentPosition s)) of
        Inl e \<Rightarrow> Inl e
      | Inr valid \<Rightarrow>
          if valid then
            Inr (s\<lparr>currentPosition :=
                      (currentPosition s)\<lparr>pos_x := pos_x (currentPosition s) + offset\<rparr>\<rparr>, True)
          else kickLoop s rest)"

definition rotatePiece :: "Tetris \<Rightarrow> error + Tetris" where
  "rotatePiece s =
     (case currentPiece s of
        None \<Rightarrow> Inr s
      | Some p \<Rightarrow>
          (let rotated = rotate (shape p);
               originalShape = shape p;
               s1 = s\<lparr>currentPiece := Some (p\<lparr>shape := rotated\<rparr>)\<rparr>
           in case kickLoop s1 [0, 1, - 1, 2, - 2] of
                Inl e \<Rightarrow> Inl e
              | Inr (s2, kicked) \<Rightarrow>
                  if \<not> kicked
                  then Inr (s2\<lparr>currentPiece := Some (p\<lparr>shape := originalShape\<rparr>)\<rparr>)
                  else Inr s2))"

text \<open>
  The \<^verbatim>\<open>while\<close> loop of \<^verbatim>\<open>hardDrop\<close>. It does not end for a shape without a filled
  cell, so the result is an \<open>option\<close>: \<open>None\<close> when the loop runs forever.
\<close>

partial_function (option) dropLoop :: "Tetris \<Rightarrow> (error + Tetris) option" where
  "dropLoop s =
     (case isValidMove s (pos_x (currentPosition s)) (pos_y (currentPosition s) + 1) of
        Inl e \<Rightarrow> Some (Inl e)
      | Inr valid \<Rightarrow>
          if valid then
            dropLoop (s\<lparr>currentPosition :=
                           (currentPosition s)\<lparr>pos_y := pos_y (currentPosition s) + 1\<rparr>,
                         score := score s + 2\<rparr>)
          else Some (Inr s))"

declare dropLoop.simps [code]

definition hardDrop :: "nat \<Rightarrow> Tetris \<Rightarrow> (error + Tetris) option" where
  "hardDrop r s =
     (case currentPiece s of
        None \<Rightarrow> Some (Inr s)
      | Some _ \<Rightarrow>
          (case dropLoop s of
             None \<Rightarrow> None
           | Some (Inl e) \<Rightarrow> Some (Inl e)
           | Some (Inr s1) \<Rightarrow> Some (lockAndSpawn r s1)))"

subsection \<open>The game\<close>

text \<open>\<^verbatim>\<open>startGame\<close>, without the clock and the animation frame.\<close>

definition startGame :: "nat \<Rightarrow> Tetris \<Rightarrow> error + Tetris" where
  "startGame r s =
     spawnPiece r
       (initializeBoard
          (s\<lparr>gameStarted := True, gameOver := False, isPaused := False,
             score := 0, level := 1, lines := 0, dropInterval := 1000\<rparr>))"

text \<open>\<^verbatim>\<open>togglePause\<close>\<close>

definition togglePause :: "Tetris \<Rightarrow> Tetris" where
  "togglePause s =
     (if \<not> gameStarted s \<or> gameOver s then s else s\<lparr>isPaused := \<not> isPaused s\<rparr>)"

text \<open>
  The component before \<^verbatim>\<open>ngOnInit\<close>: the field initialisers. \<^verbatim>\<open>ngOnInit\<close> reads the
  stored high score, if there is one, and creates the board.
\<close>

definition newTetris :: Tetris where
  "newTetris =
     \<lparr>board = [], currentPiece = None, currentPosition = \<lparr>pos_x = 0, pos_y = 0\<rparr>,
      dropInterval = 1000, score = 0, level = 1, lines = 0, highScore = 0,
      gameStarted = False, gameOver = False, isPaused = False, tetrisHighScore = None\<rparr>"

definition ngOnInit :: "Tetris \<Rightarrow> Tetris" where
  "ngOnInit s =
     initializeBoard
       (case tetrisHighScore s of
          None \<Rightarrow> s
        | Some savedHighScore \<Rightarrow> s\<lparr>highScore := savedHighScore\<rparr>)"

text \<open>\<^verbatim>\<open>restartGame\<close>\<close>

definition restartGame :: "nat \<Rightarrow> Tetris \<Rightarrow> error + Tetris" where
  "restartGame r s = startGame r s"

text \<open>
  \<^verbatim>\<open>handleKeyPress\<close>, with \<open>key\<close> for \<^verbatim>\<open>event.key\<close> and \<open>r\<close> for the random choice of the
  next piece. \<^verbatim>\<open>preventDefault\<close> is left out.
\<close>

definition handleKeyPress :: "string \<Rightarrow> nat \<Rightarrow> Tetris \<Rightarrow> (error + Tetris) option" where
  "handleKeyPress key r s =
     (if \<not> gameStarted s \<and> \<not> gameOver s then
        (if key = '' '' then Some (startGame r s) else Some (Inr s))
      else if gameOver s \<and> key = '' '' then Some (restartGame r s)
      else if \<not> gameStarted s \<or> gameOver s then Some (Inr s)
      else if key = ''p'' \<or> key = ''P'' then Some (Inr (togglePause s))
      else if isPaused s then Some (Inr s)
      else if key = ''ArrowLeft'' then Some (movePiece (- 1) 0 r s)
      else if key = ''ArrowRight'' then Some (movePiece 1 0 r s)
      else if key = ''ArrowDown'' then Some (movePiece 0 1 r s)
      else if key = ''ArrowUp'' then Some (rotatePiece s)
      else if key = '' '' then hardDrop r s
      else Some (Inr s))"

text \<open>
  \<^verbatim>\<open>update\<close>, the animation frame callback, without the drawing; \<open>deltaTime\<close> is the time
  since the last drop as the clock gives it.
\<close>

definition update :: "int \<Rightarrow> nat \<Rightarrow> Tetris \<Rightarrow> error + Tetris" where
  "update deltaTime r s =
     (if isPaused s \<or> gameOver s then Inr s
      else if deltaTime > dropInterval s then movePiece 0 1 r s
      else Inr s)"

text \<open>
  The states of a session: the component after \<^verbatim>\<open>ngOnInit\<close>, with any stored high score,
  and every state that a key, a frame, or a call of \<^verbatim>\<open>startGame\<close> or \<^verbatim>\<open>togglePause\<close>
  from the page leads to without an exception.
\<close>

inductive reachable :: "Tetris \<Rightarrow> bool" where
  init: "reachable (ngOnInit (newTetris\<lparr>tetrisHighScore := stored\<rparr>))"
| key: "reachable s \<Longrightarrow> r < 7 \<Longrightarrow> handleKeyPress k r s = Some (Inr s') \<Longrightarrow> reachable s'"
| tick: "reachable s \<Longrightarrow> r < 7 \<Longrightarrow> update deltaTime r s = Inr s' \<Longrightarrow> reachable s'"
| start: "reachable s \<Longrightarrow> r < 7 \<Longrightarrow> startGame r s = Inr s' \<Longrightarrow> reachable s'"
| pause: "reachable s \<Longrightarrow> reachable (togglePause s)"

subsection \<open>Predicates of the properties\<close>

text \<open>
  The shape of the board that \<^verbatim>\<open>initializeBoard\<close> creates: 20 rows of 10 cells, every cell
  a string (the empty string or a colour), none a hole.
\<close>

definition wellFormed :: "boardT \<Rightarrow> bool" where
  "wellFormed b =
     (length b = nat rows \<and>
      (\<forall>r \<in> set b. length r = nat cols \<and> (\<forall>cell \<in> set r. \<exists>str. cell = Some str)))"

text \<open>The test \<^verbatim>\<open>this.board[newY][newX]\<close> of \<^verbatim>\<open>isValidMove\<close> is falsy.\<close>

definition cellFree :: "boardT \<Rightarrow> int \<Rightarrow> int \<Rightarrow> bool" where
  "cellFree b newY newX = (\<not> truthyStr (cellGet (b ! nat newY) newX))"

text \<open>A matrix with as many columns in every row as it has rows.\<close>

definition isSquare :: "matrix \<Rightarrow> bool" where
  "isSquare m = (\<forall>r \<in> set m. length r = length m)"

text \<open>
  The drop interval that belongs to the level. \<^verbatim>\<open>startGame\<close> and the field initialisers
  set level 1 and 1000 ms; \<^verbatim>\<open>clearLines\<close> sets both together.
\<close>

definition speedMatchesLevel :: "Tetris \<Rightarrow> bool" where
  "speedMatchesLevel s = (dropInterval s = max 100 (1000 - (level s - 1) * 100))"

text \<open>
  An example board: rows 3 and 7 are full, row \<open>i\<close> of the others has its first
  \<open>i mod 10\<close> cells filled.
\<close>

definition demoBoard :: boardT where
  "demoBoard =
     map (\<lambda>i. if i = 3 \<or> i = 7 then replicate 10 (Some ''#f00000'')
              else replicate (i mod 10) (Some ''#00f000'') @ replicate (10 - i mod 10) (Some []))
         [0..<20]"

text \<open>A matrix with a filled cell.\<close>

definition hasFilled :: "matrix \<Rightarrow> bool" where
  "hasFilled m = (\<exists>row < length m. \<exists>col < length (m ! row). truthyNum (m ! row ! col))"

text \<open>The active piece is square, has a filled cell, and its placement is valid.\<close>

definition placed :: "Tetris \<Rightarrow> bool" where
  "placed s =
     (\<exists>p. currentPiece s = Some p \<and> isSquare (shape p) \<and> hasFilled (shape p) \<and>
          isValidMove s (pos_x (currentPosition s)) (pos_y (currentPosition s)) = Inr True)"

text \<open>What holds in every state of a session.\<close>

definition gameInv :: "Tetris \<Rightarrow> bool" where
  "gameInv s =
     (wellFormed (board s) \<and> speedMatchesLevel s \<and> level s = lines s div 10 + 1 \<and>
      (gameStarted s \<longrightarrow> \<not> gameOver s \<and> placed s) \<and>
      (\<not> gameStarted s \<and> \<not> gameOver s \<longrightarrow> currentPiece s = None))"

subsection \<open>Example states\<close>

text \<open>A board whose two top rows are filled in columns 3 to 6.\<close>

definition blockedBoard :: boardT where
  "blockedBoard =
     replicate 2 (replicate 3 (Some []) @ replicate 4 (Some ''#f00000'') @ replicate 3 (Some []))
       @ replicate 18 emptyRow"

text \<open>The game right after \<^verbatim>\<open>startGame\<close> when the random choice is the O piece.\<close>

definition freshGame :: Tetris where
  "freshGame = (ngOnInit newTetris)\<lparr>gameStarted := True, currentPiece := Some (pieces ! 3),
                                      currentPosition := \<lparr>pos_x = 4, pos_y = 0\<rparr>\<rparr>"

text \<open>The same game with the O piece resting on the floor.\<close>

definition restingGame :: Tetris where
  "restingGame = freshGame\<lparr>currentPosition := \<lparr>pos_x = 4, pos_y = 18\<rparr>\<rparr>"

text \<open>The I piece upright and lying flat (its first and second rotation).\<close>

definition uprightI :: Tetromino where
  "uprightI = \<lparr>shape = numbers [[0, 0, 1, 0],
                                  [0, 0, 1, 0],
                                  [0, 0, 1, 0],
                                  [0, 0, 1, 0]], color = ''#00f0f0''\<rparr>"

definition flatI :: Tetromino where
  "flatI = \<lparr>shape = numbers [[0, 0, 0, 0],
                               [0, 0, 0, 0],
                               [1, 1, 1, 1],
                               [0, 0, 0, 0]], color = ''#00f0f0''\<rparr>"

text \<open>The upright I piece against the left wall of the empty board.\<close>

definition kickState :: Tetris where
  "kickState = (ngOnInit newTetris)\<lparr>currentPiece := Some uprightI,
                                      currentPosition := \<lparr>pos_x = - 2, pos_y = 0\<rparr>\<rparr>"

section \<open>Properties\<close>

subsection \<open>Collision test\<close>

lemma in_cellsOf: "(row, col) \<in> set (cellsOf sh) \<longleftrightarrow> row < length sh \<and> col < length (sh ! row)"
  by (auto simp: cellsOf_def image_iff)

lemma checkCells_scan:
  assumes "nat rows \<le> length b"
  shows "checkCells b sh x y ps =
         Inr (\<forall>(row, col) \<in> set ps. truthyNum (sh ! row ! col) \<longrightarrow>
                0 \<le> x + int col \<and> x + int col < cols \<and> y + int row < rows \<and>
                (0 \<le> y + int row \<longrightarrow> cellFree b (y + int row) (x + int col)))"
proof (induction ps)
  case Nil
  show ?case by simp
next
  case (Cons p ps)
  obtain row col where p: "p = (row, col)" by (cases p)
  have get: "arrayGet b newY = Some (b ! nat newY)" if "0 \<le> newY" "newY < rows" for newY
    using that assms by (simp add: arrayGet_def)
  show ?case
    unfolding p using Cons.IH
    by (auto simp: Let_def get cellFree_def)
qed

lemma isValidMove_scan:
  assumes "currentPiece s = Some p" and "nat rows \<le> length (board s)"
  shows "isValidMove s x y =
         Inr (\<forall>row < length (shape p). \<forall>col < length (shape p ! row).
                truthyNum (shape p ! row ! col) \<longrightarrow>
                0 \<le> x + int col \<and> x + int col < cols \<and> y + int row < rows \<and>
                (0 \<le> y + int row \<longrightarrow> cellFree (board s) (y + int row) (x + int col)))"
  using assms by (auto simp: isValidMove_def checkCells_scan in_cellsOf)

lemma cellFree_wellFormed:
  assumes "wellFormed b" "0 \<le> newY" "newY < rows" "0 \<le> newX" "newX < cols"
  shows "cellFree b newY newX \<longleftrightarrow> b ! nat newY ! nat newX = Some []"
proof -
  have r: "b ! nat newY \<in> set b" using assms by (simp add: wellFormed_def)
  then have l: "length (b ! nat newY) = nat cols" using assms(1) by (simp add: wellFormed_def)
  then have "b ! nat newY ! nat newX \<in> set (b ! nat newY)" using assms by simp
  then obtain str where "b ! nat newY ! nat newX = Some str"
    using assms(1) r unfolding wellFormed_def by blast
  then show ?thesis
    using assms l by (simp add: cellFree_def cellGet_def arrayGet_def)
qed

text \<open>
  Claim C1. With an active piece on a board of 20 rows of 10 cells, \<^verbatim>\<open>isValidMove(x, y)\<close>
  returns true exactly when every filled cell \<open>(row, col)\<close> of the shape has
  \<open>0 \<le> x + col < 10\<close> and \<open>y + row < 20\<close> and, whenever \<open>y + row \<ge> 0\<close>, the board cell at
  \<open>(y + row, x + col)\<close> is the empty string. A cell above the board (\<open>y + row < 0\<close>) is only
  checked on its column.
\<close>

theorem isValidMove_spec:
  assumes "currentPiece s = Some p" and "wellFormed (board s)"
  shows "isValidMove s x y =
         Inr (\<forall>row < length (shape p). \<forall>col < length (shape p ! row).
                truthyNum (shape p ! row ! col) \<longrightarrow>
                0 \<le> x + int col \<and> x + int col < 10 \<and> y + int row < 20 \<and>
                (0 \<le> y + int row \<longrightarrow>
                   board s ! nat (y + int row) ! nat (x + int col) = Some []))"
proof -
  have len: "nat rows \<le> length (board s)"
    using assms(2) by (simp add: wellFormed_def)
  have "(0 \<le> x + int col \<and> x + int col < cols \<and> y + int row < rows \<and>
          (0 \<le> y + int row \<longrightarrow> cellFree (board s) (y + int row) (x + int col)))
        = (0 \<le> x + int col \<and> x + int col < 10 \<and> y + int row < 20 \<and>
          (0 \<le> y + int row \<longrightarrow> board s ! nat (y + int row) ! nat (x + int col) = Some []))"
    for row col
    using cellFree_wellFormed [OF assms(2), of "y + int row" "x + int col"]
    by (auto simp: cols_def rows_def)
  then show ?thesis
    unfolding isValidMove_scan [OF assms(1) len] by simp
qed

lemma wellFormed_initial: "wellFormed (replicate (nat rows) emptyRow)"
  by (simp add: wellFormed_def emptyRow_def)

lemma piece3: "pieces ! 3 = \<lparr>shape = [[Some 1, Some 1], [Some 1, Some 1]], color = ''#f0f000''\<rparr>"
  by (simp add: pieces_def tetrominoes_def numbers_def)

theorem isValidMove_spec_witness:
  "isValidMove ((ngOnInit newTetris)\<lparr>currentPiece := Some (pieces ! 3)\<rparr>) 4 0 = Inr True \<and>
   isValidMove ((ngOnInit newTetris)\<lparr>currentPiece := Some (pieces ! 3)\<rparr>) 9 0 = Inr False"
proof -
  let ?s = "(ngOnInit newTetris)\<lparr>currentPiece := Some (pieces ! 3)\<rparr>"
  have b: "board ?s = replicate (nat rows) emptyRow"
    by (simp add: ngOnInit_def newTetris_def initializeBoard_def)
  have wf: "wellFormed (board ?s)"
    unfolding b by (rule wellFormed_initial)
  have p: "currentPiece ?s = Some (pieces ! 3)" by simp
  have free: "replicate (nat rows) emptyRow ! i ! j = Some []" if "i < 20" "j < 10" for i j
    using that by (simp add: rows_def cols_def emptyRow_def)
  show ?thesis
    unfolding isValidMove_spec [OF p wf] b
    by (simp add: piece3 free less_Suc_eq all_conj_distrib numeral_2_eq_2)
qed

subsection \<open>Rotation of a matrix\<close>

lemma rotate_inner:
  assumes "k \<le> length rot"
  shows "length (fold (\<lambda>j rotated. rotated[j := (rotated ! j)[c := v j]]) [0..<k] rot) = length rot
       \<and> (\<forall>j < length rot.
            fold (\<lambda>j rotated. rotated[j := (rotated ! j)[c := v j]]) [0..<k] rot ! j =
            (if j < k then (rot ! j)[c := v j] else rot ! j))"
  using assms
proof (induction k)
  case 0
  show ?case by simp
next
  case (Suc k)
  then show ?case by (auto simp: nth_list_update less_Suc_eq)
qed

lemma rotate_outer:
  assumes "k \<le> n"
  shows "length (fold (\<lambda>i. fold (\<lambda>j rotated. rotated[j := (rotated ! j)[n - 1 - i := v i j]]) [0..<n])
                  [0..<k] (replicate n (replicate n z))) = n
       \<and> (\<forall>j < n.
            fold (\<lambda>i. fold (\<lambda>j rotated. rotated[j := (rotated ! j)[n - 1 - i := v i j]]) [0..<n])
                  [0..<k] (replicate n (replicate n z)) ! j =
            map (\<lambda>c. if n - 1 - c < k then v (n - 1 - c) j else z) [0..<n])"
  using assms
proof (induction k)
  case 0
  show ?case by (auto intro: nth_equalityI)
next
  case (Suc k)
  let ?prev = "fold (\<lambda>i. fold (\<lambda>j rotated. rotated[j := (rotated ! j)[n - 1 - i := v i j]]) [0..<n])
                  [0..<k] (replicate n (replicate n z))"
  have IH: "length ?prev = n"
    "\<And>j. j < n \<Longrightarrow> ?prev ! j = map (\<lambda>c. if n - 1 - c < k then v (n - 1 - c) j else z) [0..<n]"
    using Suc by auto
  have inner: "length (fold (\<lambda>j rotated. rotated[j := (rotated ! j)[n - 1 - k := v k j]]) [0..<n] ?prev) = n"
    "\<And>j. j < n \<Longrightarrow> fold (\<lambda>j rotated. rotated[j := (rotated ! j)[n - 1 - k := v k j]]) [0..<n] ?prev ! j
        = (?prev ! j)[n - 1 - k := v k j]"
    using rotate_inner [of n ?prev "n - 1 - k" "v k"] IH(1) by auto
  have upd: "(map (\<lambda>c. if n - 1 - c < k then v (n - 1 - c) j else z) [0..<n])[n - 1 - k := v k j]
           = map (\<lambda>c. if n - 1 - c < Suc k then v (n - 1 - c) j else z) [0..<n]" for j
    using Suc.prems by (auto intro!: nth_equalityI simp: nth_list_update)
  show ?case
    using inner IH(2) upd by simp
qed

lemma rotate_closed:
  assumes "isSquare m"
  shows "rotate m = map (\<lambda>j. map (\<lambda>c. m ! (length m - 1 - c) ! j) [0..<length m]) [0..<length m]"
proof -
  let ?n = "length m"
  have cell: "cellGet (m ! i) (int j) = m ! i ! j" if "i < ?n" "j < ?n" for i j
    using that assms by (simp add: cellGet_def arrayGet_def isSquare_def)
  have rot: "rotate m = fold (\<lambda>i. fold (\<lambda>j rotated. rotated[j := (rotated ! j)[?n - 1 - i := cellGet (m ! i) (int j)]]) [0..<?n])
                  [0..<?n] (replicate ?n (replicate ?n (Some 0)))"
    by (simp add: rotate_def Let_def)
  show ?thesis
    unfolding rot
    using rotate_outer [of ?n ?n "\<lambda>i j. cellGet (m ! i) (int j)" "Some 0"]
    by (auto intro!: nth_equalityI simp: cell)
qed

lemma rotate_square: "isSquare m \<Longrightarrow> isSquare (rotate m) \<and> length (rotate m) = length m"
  by (simp add: rotate_closed) (simp add: isSquare_def)

lemma rotate_nth:
  assumes "isSquare m" "j < length m" "c < length m"
  shows "rotate m ! j ! c = m ! (length m - 1 - c) ! j"
  using assms by (simp add: rotate_closed)

lemma rotate4:
  assumes "isSquare m"
  shows "rotate (rotate (rotate (rotate m))) = m"
proof -
  let ?n = "length m"
  have s1: "isSquare (rotate m)" "length (rotate m) = ?n"
    using rotate_square [OF assms] by auto
  have s2: "isSquare (rotate (rotate m))" "length (rotate (rotate m)) = ?n"
    using rotate_square [OF s1(1)] s1(2) by auto
  have s3: "isSquare (rotate (rotate (rotate m)))" "length (rotate (rotate (rotate m))) = ?n"
    using rotate_square [OF s2(1)] s2(2) by auto
  have s4: "isSquare (rotate (rotate (rotate (rotate m))))" "length (rotate (rotate (rotate (rotate m)))) = ?n"
    using rotate_square [OF s3(1)] s3(2) by auto
  show ?thesis
  proof (rule nth_equalityI)
    show "length (rotate (rotate (rotate (rotate m)))) = length m" by (rule s4(2))
  next
    fix a assume "a < length (rotate (rotate (rotate (rotate m))))"
    then have a: "a < ?n" using s4(2) by simp
    have la: "length (m ! a) = ?n" using assms a by (simp add: isSquare_def)
    have l4: "length (rotate (rotate (rotate (rotate m))) ! a) = ?n"
      using s4 a by (simp add: isSquare_def)
    show "rotate (rotate (rotate (rotate m))) ! a = m ! a"
    proof (rule nth_equalityI)
      show "length (rotate (rotate (rotate (rotate m))) ! a) = length (m ! a)"
        using l4 la by simp
    next
      fix b assume "b < length (rotate (rotate (rotate (rotate m))) ! a)"
      then have b: "b < ?n" using l4 by simp
      have "rotate (rotate (rotate (rotate m))) ! a ! b = rotate (rotate (rotate m)) ! (?n - 1 - b) ! a"
        using rotate_nth [OF s3(1), of a b] a b s3(2) by simp
      also have "\<dots> = rotate (rotate m) ! (?n - 1 - a) ! (?n - 1 - b)"
        using rotate_nth [OF s2(1), of "?n - 1 - b" a] a b s2(2) by simp
      also have "\<dots> = rotate m ! (?n - 1 - (?n - 1 - b)) ! (?n - 1 - a)"
        using rotate_nth [OF s1(1), of "?n - 1 - a" "?n - 1 - b"] a b s1(2) by simp
      also have "\<dots> = m ! (?n - 1 - (?n - 1 - a)) ! (?n - 1 - (?n - 1 - b))"
        using rotate_nth [OF assms, of "?n - 1 - (?n - 1 - b)" "?n - 1 - a"] a b by simp
      also have "\<dots> = m ! a ! b"
        using a b by simp
      finally show "rotate (rotate (rotate (rotate m))) ! a ! b = m ! a ! b" .
    qed
  qed
qed

lemma pieces_square: "\<forall>p \<in> set pieces. isSquare (shape p)"
  by (simp add: pieces_def tetrominoes_def numbers_def isSquare_def)

text \<open>
  Claim C9. For each of the seven shapes of the catalog (I, J, L, O, S, T, Z), four
  applications of \<^verbatim>\<open>rotate\<close> give back the shape itself, element for element.
\<close>

theorem rotate_four_times_catalog:
  "\<forall>p \<in> set pieces. rotate (rotate (rotate (rotate (shape p)))) = shape p"
  using pieces_square rotate4 by blast

theorem rotate_four_times_catalog_witness:
  "rotate (rotate (rotate (rotate (numbers [[0, 1, 0], [1, 1, 1], [0, 0, 0]])))) =
   numbers [[0, 1, 0], [1, 1, 1], [0, 0, 0]]"
proof -
  have "pieces ! 5 \<in> set pieces"
    by (simp add: pieces_def tetrominoes_def)
  moreover have "shape (pieces ! 5) = numbers [[0, 1, 0], [1, 1, 1], [0, 0, 0]]"
    by (simp add: pieces_def tetrominoes_def)
  ultimately show ?thesis
    using rotate_four_times_catalog by metis
qed

subsection \<open>Clearing lines\<close>

lemma clearLoop_scan:
  assumes "0 \<le> row \<Longrightarrow> nat row < length b"
  shows "clearLoop b row n =
         Inr (replicate (length (filter isFull (take (nat (row + 1)) b))) emptyRow
                @ filter (\<lambda>r. \<not> isFull r) (take (nat (row + 1)) b) @ drop (nat (row + 1)) b,
              n + int (length (filter isFull (take (nat (row + 1)) b))))"
  using assms
proof (induction b row n rule: clearLoop.induct)
  case (1 b row n)
  show ?case
  proof (cases "0 \<le> row")
    case False
    then show ?thesis by (simp add: clearLoop.simps [of b row n])
  next
    case True
    then have lt: "nat row < length b" using "1.prems" by simp
    then have get: "arrayGet b row = Some (b ! nat row)"
      using True by (simp add: arrayGet_def)
    have suc: "nat (row + 1) = Suc (nat row)" using True by simp
    have tk: "take (Suc (nat row)) b = take (nat row) b @ [b ! nat row]"
      using lt by (rule take_Suc_conv_app_nth)
    show ?thesis
    proof (cases "isFull (b ! nat row)")
      case full: True
      define b' where "b' = emptyRow # take (nat row) b @ drop (Suc (nat row)) b"
      have len: "nat row < length b'" using lt by (simp add: b'_def)
      have tk': "take (Suc (nat row)) b' = emptyRow # take (nat row) b"
        using lt by (simp add: b'_def)
      have dr': "drop (Suc (nat row)) b' = drop (Suc (nat row)) b"
        using lt by (simp add: b'_def)
      have step: "clearLoop b row n = clearLoop b' row (n + 1)"
        by (subst clearLoop.simps) (simp add: get True full b'_def)
      have IH: "clearLoop b' row (n + 1) =
         Inr (replicate (length (filter isFull (take (Suc (nat row)) b'))) emptyRow
                @ filter (\<lambda>r. \<not> isFull r) (take (Suc (nat row)) b') @ drop (Suc (nat row)) b',
              n + 1 + int (length (filter isFull (take (Suc (nat row)) b'))))"
        using "1.IH"(1) [OF True get full] len by (simp add: b'_def suc)
      show ?thesis
        unfolding step IH tk' dr' suc tk
        using full by (simp add: emptyRow_not_full replicate_app_Cons_same)
    next
      case notfull: False
      have IH: "clearLoop b (row - 1) n =
         Inr (replicate (length (filter isFull (take (nat (row - 1 + 1)) b))) emptyRow
                @ filter (\<lambda>r. \<not> isFull r) (take (nat (row - 1 + 1)) b) @ drop (nat (row - 1 + 1)) b,
              n + int (length (filter isFull (take (nat (row - 1 + 1)) b))))"
        using "1.IH"(2) [OF True get notfull] lt True by simp
      have dr: "drop (nat row) b = b ! nat row # drop (Suc (nat row)) b"
        using lt by (simp add: Cons_nth_drop_Suc)
      show ?thesis
        unfolding clearLoop.simps [of b row n] IH
        using True notfull
        by (simp add: get suc tk dr)
    qed
  qed
qed

lemma clearLoop_all:
  assumes "length b = nat rows"
  shows "clearLoop b (rows - 1) 0 =
         Inr (replicate (length (filter isFull b)) emptyRow @ filter (\<lambda>r. \<not> isFull r) b,
              int (length (filter isFull b)))"
proof -
  have "nat (rows - 1 + 1) = length b" using assms by simp
  moreover have "nat (rows - 1) < length b" using assms by (simp add: rows_def)
  ultimately show ?thesis
    using clearLoop_scan [of "rows - 1" b 0] by simp
qed

lemma clearLines_board:
  assumes "length (board s) = nat rows"
  shows "\<exists>s'. clearLines s = Inr (s', int (length (filter isFull (board s)))) \<and>
              board s' = replicate (length (filter isFull (board s))) emptyRow
                           @ filter (\<lambda>r. \<not> isFull r) (board s)"
  by (simp add: clearLines_def clearLoop_all [OF assms] Let_def)

lemma rows_3_7:
  assumes "length b = 20" and "\<forall>i < 20. isFull (b ! i) \<longleftrightarrow> i = 3 \<or> i = 7"
  shows "filter isFull b = [b ! 3, b ! 7]"
    and "filter (\<lambda>r. \<not> isFull r) b =
           map (\<lambda>i. b ! i) [0, 1, 2, 4, 5, 6, 8, 9, 10, 11, 12, 13, 14, 15, 16, 17, 18, 19]"
proof -
  define idx :: "nat list"
    where "idx = [0, 1, 2, 3, 4, 5, 6, 7, 8, 9, 10, 11, 12, 13, 14, 15, 16, 17, 18, 19]"
  have upt20: "[0..<20] = idx"
    unfolding idx_def by code_simp
  have b: "b = map (\<lambda>i. b ! i) idx"
    using assms(1) map_nth [of b] upt20 by simp
  have full: "filter (\<lambda>i. isFull (b ! i)) idx = [3, 7]"
    using assms(2) by (simp add: idx_def)
  have part: "filter (\<lambda>i. \<not> isFull (b ! i)) idx =
              [0, 1, 2, 4, 5, 6, 8, 9, 10, 11, 12, 13, 14, 15, 16, 17, 18, 19]"
    using assms(2) by (simp add: idx_def)
  have "filter isFull b = map (\<lambda>i. b ! i) (filter (\<lambda>i. isFull (b ! i)) idx)"
    by (subst b) (simp only: filter_map o_def)
  then show "filter isFull b = [b ! 3, b ! 7]"
    unfolding full by simp
  have "filter (\<lambda>r. \<not> isFull r) b = map (\<lambda>i. b ! i) (filter (\<lambda>i. \<not> isFull (b ! i)) idx)"
    by (subst b) (simp only: filter_map o_def)
  then show "filter (\<lambda>r. \<not> isFull r) b =
           map (\<lambda>i. b ! i) [0, 1, 2, 4, 5, 6, 8, 9, 10, 11, 12, 13, 14, 15, 16, 17, 18, 19]"
    unfolding part .
qed

lemma demoBoard_length: "length demoBoard = 20"
  by (simp add: demoBoard_def)

lemma demoBoard_full: "\<forall>i < 20. isFull (demoBoard ! i) \<longleftrightarrow> i = 3 \<or> i = 7"
  by (auto simp: demoBoard_def isFull_def list_all_iff)

text \<open>
  Claim C2. On a board of 20 rows, \<^verbatim>\<open>clearLines\<close> returns the number of full rows (rows
  all of whose cells are non-empty), and the board afterwards is one empty row for each
  of them, followed by the rows that are not full, in their order and unchanged. In
  particular, when rows 3 and 7 are the full rows, it returns 2 and the board is two empty
  rows followed by rows 0, 1, 2, 4, 5, 6, 8, ..., 19.
\<close>

theorem clearLines_spec:
  assumes "length (board s) = 20"
  shows "\<exists>s'. clearLines s = Inr (s', int (length (filter isFull (board s)))) \<and>
              board s' = replicate (length (filter isFull (board s))) emptyRow
                           @ filter (\<lambda>r. \<not> isFull r) (board s) \<and>
              ((\<forall>i < 20. isFull (board s ! i) \<longleftrightarrow> i = 3 \<or> i = 7) \<longrightarrow>
                 clearLines s = Inr (s', 2) \<and>
                 board s' = emptyRow # emptyRow #
                   map (\<lambda>i. board s ! i)
                     [0, 1, 2, 4, 5, 6, 8, 9, 10, 11, 12, 13, 14, 15, 16, 17, 18, 19])"
proof -
  have len: "length (board s) = nat rows" using assms by (simp add: rows_def)
  obtain s' where s': "clearLines s = Inr (s', int (length (filter isFull (board s))))"
      "board s' = replicate (length (filter isFull (board s))) emptyRow
                           @ filter (\<lambda>r. \<not> isFull r) (board s)"
    using clearLines_board [OF len] by blast
  have "clearLines s = Inr (s', 2) \<and>
        board s' = emptyRow # emptyRow #
           map (\<lambda>i. board s ! i) [0, 1, 2, 4, 5, 6, 8, 9, 10, 11, 12, 13, 14, 15, 16, 17, 18, 19]"
    if "\<forall>i < 20. isFull (board s ! i) \<longleftrightarrow> i = 3 \<or> i = 7"
    using s' rows_3_7 [OF assms that] by simp
  then show ?thesis using s' by blast
qed

theorem clearLines_spec_witness:
  "\<exists>s'. clearLines (newTetris\<lparr>board := demoBoard\<rparr>) = Inr (s', 2) \<and>
        board s' = emptyRow # emptyRow #
           map (\<lambda>i. demoBoard ! i) [0, 1, 2, 4, 5, 6, 8, 9, 10, 11, 12, 13, 14, 15, 16, 17, 18, 19]"
  using clearLines_spec [of "newTetris\<lparr>board := demoBoard\<rparr>"] demoBoard_length demoBoard_full
  by auto

lemma clearLines_fields:
  assumes "clearLines s = Inr (s', n)"
  shows "\<exists>b l lv d. s' = s\<lparr>board := b, lines := l, level := lv, dropInterval := d\<rparr>"
    and "speedMatchesLevel s \<Longrightarrow> speedMatchesLevel s'"
    and "level s = lines s div 10 + 1 \<Longrightarrow> level s' = lines s' div 10 + 1"
    and "n > 0 \<Longrightarrow> lines s' = lines s + n \<and> level s' = lines s' div 10 + 1"
proof -
  obtain b k where loop: "clearLoop (board s) (rows - 1) 0 = Inr (b, k)"
    using assms by (auto simp: clearLines_def split: sum.splits)
  have s': "s' = (if k > 0 then
                    (if (lines s + k) div 10 + 1 \<noteq> level s
                     then s\<lparr>board := b, lines := lines s + k, level := (lines s + k) div 10 + 1,
                            dropInterval := max 100 (1000 - ((lines s + k) div 10 + 1 - 1) * 100)\<rparr>
                     else s\<lparr>board := b, lines := lines s + k\<rparr>)
                  else s\<lparr>board := b\<rparr>)"
    and k: "k = n"
    using assms by (auto simp: clearLines_def loop Let_def split: if_splits)
  show "\<exists>b l lv d. s' = s\<lparr>board := b, lines := l, level := lv, dropInterval := d\<rparr>"
  proof (intro exI)
    show "s' = s\<lparr>board := board s', lines := lines s', level := level s',
                  dropInterval := dropInterval s'\<rparr>"
      unfolding s' by simp
  qed
  show "speedMatchesLevel s'" if "speedMatchesLevel s"
    using that unfolding s' by (simp add: speedMatchesLevel_def)
  show "level s' = lines s' div 10 + 1" if "level s = lines s div 10 + 1"
    using that unfolding s' by simp
  show "lines s' = lines s + n \<and> level s' = lines s' div 10 + 1" if "n > 0"
    using that k unfolding s' by simp
qed

subsection \<open>Scoring\<close>

text \<open>
  Claim C5. \<^verbatim>\<open>updateScore(linesCleared)\<close> adds \<open>table linesCleared * level\<close> to the
  score, where the table is 100, 300, 500, 800 for 1, 2, 3, 4 lines and 0 for every other
  count (0, more than 4, negative). In particular 4 lines at level 2 add 1600 and 0 lines
  add 0.
\<close>

theorem updateScore_table:
  "score (updateScore linesCleared s) =
     score s + (if linesCleared = 1 then 100 else if linesCleared = 2 then 300
                else if linesCleared = 3 then 500 else if linesCleared = 4 then 800
                else 0) * level s"
proof -
  consider "linesCleared < 0" | "linesCleared = 0" | "linesCleared = 1" | "linesCleared = 2"
    | "linesCleared = 3" | "linesCleared = 4" | "linesCleared > 4"
    by linarith
  then show ?thesis
    by cases (simp_all add: updateScore_def Let_def points_def arrayGet_def)
qed

theorem updateScore_table_witness:
  "score (updateScore 4 (newTetris\<lparr>level := 2\<rparr>)) = 1600 \<and>
   score (updateScore 0 (newTetris\<lparr>level := 5\<rparr>)) = 0"
  using updateScore_table [of 4 "newTetris\<lparr>level := 2\<rparr>"]
        updateScore_table [of 0 "newTetris\<lparr>level := 5\<rparr>"]
  by (simp add: newTetris_def)

subsection \<open>The shape of the board\<close>

lemma wellFormed_cellSet:
  assumes "wellFormed b" "0 \<le> y" "y < rows" "0 \<le> x" "x < cols"
  shows "wellFormed (b[nat y := cellSet (b ! nat y) x c])"
proof -
  have y: "nat y < length b" using assms by (simp add: wellFormed_def)
  then have r: "b ! nat y \<in> set b" by simp
  then have len: "length (b ! nat y) = nat cols"
    and cells: "\<forall>cell \<in> set (b ! nat y). \<exists>str. cell = Some str"
    using assms(1) by (auto simp: wellFormed_def)
  have upd: "cellSet (b ! nat y) x c = (b ! nat y)[nat x := Some c]"
    using assms(4,5) len by (simp add: cellSet_def)
  have "\<exists>str. cell = Some str" if "cell \<in> set ((b ! nat y)[nat x := Some c])" for cell
    using that cells set_update_subset_insert [of "b ! nat y" "nat x" "Some c"] by auto
  then have new: "length (cellSet (b ! nat y) x c) = nat cols \<and>
                  (\<forall>cell \<in> set (cellSet (b ! nat y) x c). \<exists>str. cell = Some str)"
    unfolding upd using len by simp
  have "r = cellSet (b ! nat y) x c \<or> r \<in> set b"
    if "r \<in> set (b[nat y := cellSet (b ! nat y) x c])" for r
    using that set_update_subset_insert [of b "nat y" "cellSet (b ! nat y) x c"] by auto
  then show ?thesis
    using assms(1) new unfolding wellFormed_def by (metis length_list_update)
qed

lemma lockCells_wellFormed:
  assumes "wellFormed b"
    and "\<forall>(row, col) \<in> set ps. truthyNum (shape p ! row ! col) \<longrightarrow>
           0 \<le> pos_x pos + int col \<and> pos_x pos + int col < cols \<and> pos_y pos + int row < rows"
  shows "\<exists>b'. lockCells b p pos ps = Inr b' \<and> wellFormed b'"
  using assms
proof (induction ps arbitrary: b)
  case Nil
  then show ?case by simp
next
  case (Cons c ps)
  obtain row col where c: "c = (row, col)" by (cases c)
  have rest: "\<forall>(row, col) \<in> set ps. truthyNum (shape p ! row ! col) \<longrightarrow>
           0 \<le> pos_x pos + int col \<and> pos_x pos + int col < cols \<and> pos_y pos + int row < rows"
    using Cons.prems(2) by simp
  show ?case
  proof (cases "truthyNum (shape p ! row ! col) \<and> 0 \<le> pos_y pos + int row")
    case False
    then show ?thesis
      unfolding c using Cons.IH [OF Cons.prems(1) rest] by (auto simp: Let_def)
  next
    case True
    then have rng: "0 \<le> pos_x pos + int col" "pos_x pos + int col < cols"
        "pos_y pos + int row < rows" "0 \<le> pos_y pos + int row"
      using Cons.prems(2) c by auto
    have get: "arrayGet b (pos_y pos + int row) = Some (b ! nat (pos_y pos + int row))"
      using rng Cons.prems(1) by (simp add: arrayGet_def wellFormed_def)
    have wf: "wellFormed (b[nat (pos_y pos + int row) :=
                 cellSet (b ! nat (pos_y pos + int row)) (pos_x pos + int col) (color p)])"
      using wellFormed_cellSet [OF Cons.prems(1) rng(4) rng(3) rng(1) rng(2)] .
    show ?thesis
      unfolding c using Cons.IH [OF wf rest] True by (simp add: Let_def get)
  qed
qed

lemma lockPiece_wellFormed:
  assumes "currentPiece s = Some p" and "wellFormed (board s)"
    and "\<forall>row < length (shape p). \<forall>col < length (shape p ! row).
           truthyNum (shape p ! row ! col) \<longrightarrow>
           0 \<le> pos_x (currentPosition s) + int col \<and> pos_x (currentPosition s) + int col < cols \<and>
           pos_y (currentPosition s) + int row < rows"
  shows "\<exists>b. lockPiece s = Inr (s\<lparr>board := b\<rparr>) \<and> wellFormed b"
proof -
  have "\<forall>(row, col) \<in> set (cellsOf (shape p)). truthyNum (shape p ! row ! col) \<longrightarrow>
           0 \<le> pos_x (currentPosition s) + int col \<and> pos_x (currentPosition s) + int col < cols \<and>
           pos_y (currentPosition s) + int row < rows"
    using assms(3) by (auto simp: in_cellsOf)
  from lockCells_wellFormed [OF assms(2) this]
  show ?thesis
    using assms(1) by (auto simp: lockPiece_def)
qed

lemma clearLines_wellFormed:
  assumes "wellFormed (board s)"
  shows "\<exists>s' n. clearLines s = Inr (s', n) \<and> wellFormed (board s')"
proof -
  have len: "length (board s) = nat rows" using assms by (simp add: wellFormed_def)
  obtain s' where s': "clearLines s = Inr (s', int (length (filter isFull (board s))))"
      "board s' = replicate (length (filter isFull (board s))) emptyRow
                           @ filter (\<lambda>r. \<not> isFull r) (board s)"
    using clearLines_board [OF len] by blast
  have "length (board s') = nat rows"
    unfolding s'(2) using len sum_length_filter_compl [of isFull "board s"] by simp
  moreover have "length r = nat cols \<and> (\<forall>cell \<in> set r. \<exists>str. cell = Some str)"
    if "r \<in> set (board s')" for r
  proof -
    have "r = emptyRow \<or> r \<in> set (board s)"
      using that unfolding s'(2) by auto
    then show ?thesis
      using assms by (auto simp: wellFormed_def emptyRow_def)
  qed
  ultimately have "wellFormed (board s')"
    by (simp add: wellFormed_def)
  then show ?thesis using s'(1) by blast
qed

text \<open>
  Claim C10. The board keeps its shape: after \<^verbatim>\<open>initializeBoard\<close>, after \<^verbatim>\<open>lockPiece\<close>
  when every filled cell of the piece lies in columns 0 to 9 and above the floor
  (\<open>y + row < 20\<close>), and after \<^verbatim>\<open>clearLines\<close>, the board has 20 rows of 10 cells, and every
  cell is a string (the empty string or a colour).
\<close>

theorem board_shape_preserved:
  "wellFormed (board (initializeBoard s0)) \<and>
   (currentPiece s = Some p \<and> wellFormed (board s) \<and>
    (\<forall>row < length (shape p). \<forall>col < length (shape p ! row).
        truthyNum (shape p ! row ! col) \<longrightarrow>
        0 \<le> pos_x (currentPosition s) + int col \<and> pos_x (currentPosition s) + int col < 10 \<and>
        pos_y (currentPosition s) + int row < 20)
    \<longrightarrow> (\<exists>s'. lockPiece s = Inr s' \<and> wellFormed (board s'))) \<and>
   (wellFormed (board s) \<longrightarrow> (\<exists>s' n. clearLines s = Inr (s', n) \<and> wellFormed (board s')))"
proof -
  have "wellFormed (board (initializeBoard s0))"
    by (simp add: initializeBoard_def wellFormed_initial)
  moreover have "\<exists>s'. lockPiece s = Inr s' \<and> wellFormed (board s')"
    if "currentPiece s = Some p" "wellFormed (board s)"
       "\<forall>row < length (shape p). \<forall>col < length (shape p ! row).
          truthyNum (shape p ! row ! col) \<longrightarrow>
          0 \<le> pos_x (currentPosition s) + int col \<and> pos_x (currentPosition s) + int col < 10 \<and>
          pos_y (currentPosition s) + int row < 20"
  proof -
    have "\<forall>row < length (shape p). \<forall>col < length (shape p ! row).
          truthyNum (shape p ! row ! col) \<longrightarrow>
          0 \<le> pos_x (currentPosition s) + int col \<and> pos_x (currentPosition s) + int col < cols \<and>
          pos_y (currentPosition s) + int row < rows"
      using that(3) by (simp add: cols_def rows_def)
    from lockPiece_wellFormed [OF that(1,2) this] show ?thesis by auto
  qed
  moreover have "\<exists>s' n. clearLines s = Inr (s', n) \<and> wellFormed (board s')"
    if "wellFormed (board s)"
    using clearLines_wellFormed [OF that] .
  ultimately show ?thesis by blast
qed

theorem board_shape_preserved_witness:
  "wellFormed (board (initializeBoard newTetris)) \<and>
   (\<exists>s'. lockPiece ((ngOnInit newTetris)\<lparr>currentPiece := Some (pieces ! 3),
                       currentPosition := \<lparr>pos_x = 4, pos_y = 18\<rparr>\<rparr>) = Inr s' \<and>
         wellFormed (board s')) \<and>
   (\<exists>s' n. clearLines ((ngOnInit newTetris)\<lparr>currentPiece := Some (pieces ! 3),
                       currentPosition := \<lparr>pos_x = 4, pos_y = 18\<rparr>\<rparr>) = Inr (s', n) \<and>
         wellFormed (board s'))"
proof -
  let ?s = "(ngOnInit newTetris)\<lparr>currentPiece := Some (pieces ! 3),
                       currentPosition := \<lparr>pos_x = 4, pos_y = 18\<rparr>\<rparr>"
  have wf: "wellFormed (board ?s)"
    by (simp add: ngOnInit_def newTetris_def initializeBoard_def wellFormed_initial)
  have p: "currentPiece ?s = Some (pieces ! 3)" by simp
  have inside: "\<forall>row < length (shape (pieces ! 3)). \<forall>col < length (shape (pieces ! 3) ! row).
        truthyNum (shape (pieces ! 3) ! row ! col) \<longrightarrow>
        0 \<le> pos_x (currentPosition ?s) + int col \<and> pos_x (currentPosition ?s) + int col < 10 \<and>
        pos_y (currentPosition ?s) + int row < 20"
    by (simp add: piece3 less_Suc_eq numeral_2_eq_2)
  show ?thesis
    using board_shape_preserved [of newTetris ?s "pieces ! 3"] wf p inside by blast
qed

subsection \<open>Rotating the active piece\<close>

lemma kickLoop_find:
  assumes "currentPiece s = Some p" and "nat rows \<le> length (board s)"
  shows "kickLoop s offsets =
         Inr (case find (\<lambda>offset. isValidMove s (pos_x (currentPosition s) + offset)
                                      (pos_y (currentPosition s)) = Inr True) offsets of
                None \<Rightarrow> (s, False)
              | Some offset \<Rightarrow>
                  (s\<lparr>currentPosition :=
                       (currentPosition s)\<lparr>pos_x := pos_x (currentPosition s) + offset\<rparr>\<rparr>, True))"
proof (induction offsets)
  case Nil
  show ?case by simp
next
  case (Cons offset offsets)
  obtain v where v: "isValidMove s (pos_x (currentPosition s) + offset) (pos_y (currentPosition s)) = Inr v"
    using isValidMove_scan [OF assms] by blast
  show ?case
    using Cons.IH by (simp add: v)
qed

lemma rotatePiece_find:
  assumes "currentPiece s = Some p" and "nat rows \<le> length (board s)"
  shows "rotatePiece s =
           Inr (case find (\<lambda>offset.
                        isValidMove (s\<lparr>currentPiece := Some (p\<lparr>shape := rotate (shape p)\<rparr>)\<rparr>)
                          (pos_x (currentPosition s) + offset) (pos_y (currentPosition s)) = Inr True)
                      [0, 1, - 1, 2, - 2] of
                  None \<Rightarrow> s
                | Some offset \<Rightarrow>
                    s\<lparr>currentPiece := Some (p\<lparr>shape := rotate (shape p)\<rparr>),
                      currentPosition :=
                        \<lparr>pos_x = pos_x (currentPosition s) + offset,
                         pos_y = pos_y (currentPosition s)\<rparr>\<rparr>)"
proof -
  let ?s1 = "s\<lparr>currentPiece := Some (p\<lparr>shape := rotate (shape p)\<rparr>)\<rparr>"
  have p1: "currentPiece ?s1 = Some (p\<lparr>shape := rotate (shape p)\<rparr>)" by simp
  have b1: "nat rows \<le> length (board ?s1)" using assms(2) by simp
  have same: "s\<lparr>currentPiece := Some p\<rparr> = s"
    using assms(1) by (metis Tetris.surjective Tetris.update_convs(2))
  show ?thesis
    unfolding rotatePiece_def Let_def
    using kickLoop_find [OF p1 b1, of "[0, 1, - 1, 2, - 2]"] assms(1) same
    by (auto split: option.splits simp del: find.simps kickLoop.simps)
qed

text \<open>
  Claim C3. For an active piece with a square shape of \<open>n\<close> rows on a board of 20 rows,
  \<^verbatim>\<open>rotatePiece\<close> computes the clockwise rotation
  \<open>rotated[col][n - 1 - row] = shape[row][col]\<close> and tries it at the offsets 0, 1, -1, 2, -2
  in this order. With the first offset at which the rotated shape is valid, the rotated
  shape is kept and the offset is added to the anchor's x; when there is none, the state
  after the call is the state before it.
\<close>

theorem rotatePiece_spec:
  assumes "currentPiece s = Some p" and "isSquare (shape p)" and "length (board s) = 20"
  shows "length (rotate (shape p)) = length (shape p) \<and>
         (\<forall>row < length (shape p). \<forall>col < length (shape p).
            length (rotate (shape p) ! col) = length (shape p) \<and>
            rotate (shape p) ! col ! (length (shape p) - 1 - row) = shape p ! row ! col) \<and>
         rotatePiece s =
           Inr (case find (\<lambda>offset.
                        isValidMove (s\<lparr>currentPiece := Some (p\<lparr>shape := rotate (shape p)\<rparr>)\<rparr>)
                          (pos_x (currentPosition s) + offset) (pos_y (currentPosition s)) = Inr True)
                      [0, 1, - 1, 2, - 2] of
                  None \<Rightarrow> s
                | Some offset \<Rightarrow>
                    s\<lparr>currentPiece := Some (p\<lparr>shape := rotate (shape p)\<rparr>),
                      currentPosition :=
                        \<lparr>pos_x = pos_x (currentPosition s) + offset,
                         pos_y = pos_y (currentPosition s)\<rparr>\<rparr>)"
proof -
  have sq: "isSquare (rotate (shape p))" "length (rotate (shape p)) = length (shape p)"
    using rotate_square [OF assms(2)] by auto
  have cells: "length (rotate (shape p) ! col) = length (shape p) \<and>
        rotate (shape p) ! col ! (length (shape p) - 1 - row) = shape p ! row ! col"
    if "row < length (shape p)" "col < length (shape p)" for row col
    using that sq rotate_nth [OF assms(2), of col "length (shape p) - 1 - row"]
    by (simp add: isSquare_def)
  have len: "nat rows \<le> length (board s)" using assms(3) by (simp add: rows_def)
  show ?thesis
    using sq(2) cells rotatePiece_find [OF assms(1) len] by blast
qed

lemma rotate_uprightI: "rotate (shape uprightI) = shape flatI"
  by (simp add: uprightI_def flatI_def numbers_def rotate_def cellGet_def arrayGet_def upt_conv_Cons)

lemma flatI_blocked_at_0: "isValidMove (kickState\<lparr>currentPiece := Some flatI\<rparr>) (- 2) 0 = Inr False"
  by code_simp
lemma flatI_blocked_at_1: "isValidMove (kickState\<lparr>currentPiece := Some flatI\<rparr>) (- 1) 0 = Inr False"
  by code_simp
lemma flatI_blocked_at_minus_1: "isValidMove (kickState\<lparr>currentPiece := Some flatI\<rparr>) (- 3) 0 = Inr False"
  by code_simp
lemma flatI_valid_at_2: "isValidMove (kickState\<lparr>currentPiece := Some flatI\<rparr>) 0 0 = Inr True"
  by code_simp

theorem rotatePiece_spec_witness:
  "rotatePiece kickState =
     Inr (kickState\<lparr>currentPiece := Some flatI, currentPosition := \<lparr>pos_x = 0, pos_y = 0\<rparr>\<rparr>)"
proof -
  have p: "currentPiece kickState = Some uprightI"
    by (simp add: kickState_def)
  have sq: "isSquare (shape uprightI)"
    by (simp add: uprightI_def numbers_def isSquare_def)
  have len: "length (board kickState) = 20"
    by (simp add: kickState_def ngOnInit_def newTetris_def initializeBoard_def rows_def)
  have pos: "currentPosition kickState = \<lparr>pos_x = - 2, pos_y = 0\<rparr>"
    by (simp add: kickState_def)
  have fl: "uprightI\<lparr>shape := shape flatI\<rparr> = flatI"
    by (simp add: uprightI_def flatI_def)
  show ?thesis
    using rotatePiece_spec [OF p sq len]
    by (simp add: rotate_uprightI fl pos flatI_blocked_at_0 flatI_blocked_at_1
          flatI_blocked_at_minus_1 flatI_valid_at_2)
qed

subsection \<open>Spawning\<close>

lemma pieces_length: "length pieces = 7"
  by (simp add: pieces_def tetrominoes_def)

lemma pieces_filled:
  assumes "r < 7"
  shows "1 < length (shape (pieces ! r)) \<and> 1 < length (shape (pieces ! r) ! 0) \<and>
         1 < length (shape (pieces ! r) ! 1) \<and> truthyNum (shape (pieces ! r) ! 1 ! 1)"
proof -
  consider "r = 0" | "r = 1" | "r = 2" | "r = 3" | "r = 4" | "r = 5" | "r = 6"
    using assms by linarith
  then show ?thesis
    by cases (simp_all add: pieces_def tetrominoes_def numbers_def)
qed

lemma isValidMove_cong:
  "board s' = board s \<Longrightarrow> currentPiece s' = currentPiece s \<Longrightarrow>
   isValidMove s' x y = isValidMove s x y"
  by (simp add: isValidMove_def split: option.splits)

lemma spawnPiece_result:
  assumes "r < 7" and "length (board s) = 20"
  shows "\<exists>valid.
           isValidMove (s\<lparr>currentPiece := Some (pieces ! r)\<rparr>)
             (cols div 2 - int (length (shape (pieces ! r) ! 0)) div 2) 0 = Inr valid \<and>
           spawnPiece r s =
             Inr (s\<lparr>currentPiece := Some (pieces ! r),
                    currentPosition :=
                      \<lparr>pos_x = cols div 2 - int (length (shape (pieces ! r) ! 0)) div 2, pos_y = 0\<rparr>,
                    gameStarted := (if valid then gameStarted s else False),
                    gameOver := (if valid then gameOver s else True)\<rparr>)"
proof -
  let ?p = "pieces ! r"
  let ?x = "cols div 2 - int (length (shape ?p ! 0)) div 2"
  let ?s0 = "s\<lparr>currentPiece := Some ?p\<rparr>"
  let ?s1 = "s\<lparr>currentPiece := Some ?p, currentPosition := \<lparr>pos_x = ?x, pos_y = 0\<rparr>\<rparr>"
  have get: "arrayGet pieces (int r) = Some ?p"
    using assms(1) by (simp add: arrayGet_def pieces_length)
  obtain row0 rest where sh: "shape ?p = row0 # rest"
    using pieces_filled [OF assms(1)] by (cases "shape ?p") auto
  have p0: "currentPiece ?s0 = Some ?p" by simp
  have b0: "nat rows \<le> length (board ?s0)" using assms(2) by (simp add: rows_def)
  obtain valid where valid: "isValidMove ?s0 ?x 0 = Inr valid"
    using isValidMove_scan [OF p0 b0, of ?x 0] by blast
  have "isValidMove ?s1 ?x 0 = isValidMove ?s0 ?x 0"
    by (rule isValidMove_cong) simp_all
  then have v1: "isValidMove ?s1 ?x 0 = Inr valid" using valid by simp
  have "spawnPiece r s = Inr (if \<not> valid then endGame ?s1 else ?s1)"
    using v1 unfolding spawnPiece_def get
    by (simp add: sh Let_def)
  moreover have "(if \<not> valid then endGame ?s1 else ?s1) =
        s\<lparr>currentPiece := Some ?p, currentPosition := \<lparr>pos_x = ?x, pos_y = 0\<rparr>,
          gameStarted := (if valid then gameStarted s else False),
          gameOver := (if valid then gameOver s else True)\<rparr>"
    by (simp add: endGame_def)
  ultimately show ?thesis using valid by auto
qed

text \<open>
  Claim C7. For each of the seven pieces and a board of 20 rows, \<^verbatim>\<open>spawnPiece\<close> makes a
  copy of the piece the active piece and puts its anchor at
  \<open>x = 10 div 2 - width div 2\<close>, \<open>y = 0\<close>, where \<open>width\<close> is the length of the first row of
  the shape. When this placement is not valid the game is over (\<open>gameOver\<close> set,
  \<open>gameStarted\<close> cleared); when it is valid both flags are as before. In particular, when
  the two top rows of the board are filled in the columns of the piece, the game is over.
\<close>

theorem spawnPiece_spec:
  assumes "r < 7" and "length (board s) = 20"
  shows "\<exists>s'. spawnPiece r s = Inr s' \<and>
           currentPiece s' = Some (pieces ! r) \<and>
           currentPosition s' =
             \<lparr>pos_x = 10 div 2 - int (length (shape (pieces ! r) ! 0)) div 2, pos_y = 0\<rparr> \<and>
           board s' = board s \<and>
           (isValidMove s' (pos_x (currentPosition s')) 0 = Inr False \<longrightarrow>
              gameOver s' \<and> \<not> gameStarted s') \<and>
           (isValidMove s' (pos_x (currentPosition s')) 0 = Inr True \<longrightarrow>
              gameOver s' = gameOver s \<and> gameStarted s' = gameStarted s) \<and>
           ((\<forall>row < 2. \<forall>col < length (shape (pieces ! r) ! 0).
               \<not> cellFree (board s) (int row) (pos_x (currentPosition s') + int col)) \<longrightarrow>
              gameOver s')"
proof -
  let ?p = "pieces ! r"
  let ?x = "10 div 2 - int (length (shape ?p ! 0)) div 2"
  let ?s0 = "s\<lparr>currentPiece := Some ?p\<rparr>"
  obtain valid where valid: "isValidMove ?s0 ?x 0 = Inr valid"
    and spawn: "spawnPiece r s =
       Inr (s\<lparr>currentPiece := Some ?p, currentPosition := \<lparr>pos_x = ?x, pos_y = 0\<rparr>,
              gameStarted := (if valid then gameStarted s else False),
              gameOver := (if valid then gameOver s else True)\<rparr>)"
    using spawnPiece_result [OF assms] by (auto simp: cols_def)
  define s' where "s' = s\<lparr>currentPiece := Some ?p, currentPosition := \<lparr>pos_x = ?x, pos_y = 0\<rparr>,
              gameStarted := (if valid then gameStarted s else False),
              gameOver := (if valid then gameOver s else True)\<rparr>"
  have pos: "currentPosition s' = \<lparr>pos_x = ?x, pos_y = 0\<rparr>"
    and piece: "currentPiece s' = Some ?p" and board: "board s' = board s"
    and over: "\<not> valid \<Longrightarrow> gameOver s' \<and> \<not> gameStarted s'"
    and same: "valid \<Longrightarrow> gameOver s' = gameOver s \<and> gameStarted s' = gameStarted s"
    by (simp_all add: s'_def)
  have "isValidMove s' ?x 0 = isValidMove ?s0 ?x 0"
    by (rule isValidMove_cong) (simp_all add: s'_def)
  then have v': "isValidMove s' ?x 0 = Inr valid"
    using valid by simp
  have filled: "1 < length (shape ?p)" "1 < length (shape ?p ! 0)"
      "1 < length (shape ?p ! 1)" "truthyNum (shape ?p ! 1 ! 1)"
    using pieces_filled [OF assms(1)] by auto
  have p0: "currentPiece ?s0 = Some ?p" by simp
  have b0: "nat rows \<le> length (board ?s0)" using assms(2) by (simp add: rows_def)
  note scan = isValidMove_scan [OF p0 b0, of ?x 0]
  have blocked: "\<not> valid"
    if "\<forall>row < 2. \<forall>col < length (shape ?p ! 0). \<not> cellFree (board s) (int row) (?x + int col)"
  proof
    assume valid
    then have "\<forall>row < length (shape ?p). \<forall>col < length (shape ?p ! row).
                truthyNum (shape ?p ! row ! col) \<longrightarrow>
                0 \<le> ?x + int col \<and> ?x + int col < cols \<and> 0 + int row < rows \<and>
                (0 \<le> 0 + int row \<longrightarrow> cellFree (board ?s0) (0 + int row) (?x + int col))"
      using valid scan by simp
    then have "truthyNum (shape ?p ! 1 ! 1) \<longrightarrow>
                0 \<le> ?x + int 1 \<and> ?x + int 1 < cols \<and> 0 + int 1 < rows \<and>
                (0 \<le> 0 + int 1 \<longrightarrow> cellFree (board ?s0) (0 + int 1) (?x + int 1))"
      using filled(1,3) by blast
    then have "cellFree (board s) (int 1) (?x + int 1)"
      using filled(4) by simp
    moreover have "\<not> cellFree (board s) (int 1) (?x + int 1)"
      using that filled(2) by (metis one_less_numeral_iff semiring_norm(76))
    ultimately show False by simp
  qed
  show ?thesis
    using spawn pos piece board v' over same blocked
    unfolding s'_def [symmetric]
    by (intro exI [of _ s']) auto
qed

theorem spawnPiece_spec_witness:
  "\<exists>s'. spawnPiece 3 ((ngOnInit newTetris)\<lparr>board := blockedBoard\<rparr>) = Inr s' \<and>
        currentPosition s' = \<lparr>pos_x = 4, pos_y = 0\<rparr> \<and> gameOver s'"
proof -
  let ?s = "(ngOnInit newTetris)\<lparr>board := blockedBoard\<rparr>"
  have r: "(3::nat) < 7" by simp
  have len: "length (board ?s) = 20" by (simp add: blockedBoard_def)
  have w: "length (shape (pieces ! 3) ! 0) = 2" by (simp add: pieces_def tetrominoes_def numbers_def)
  have filled: "\<not> cellFree blockedBoard (int row) (4 + int col)" if "row < 2" "col < 2" for row col
  proof -
    have "row = 0 \<or> row = 1" "col = 0 \<or> col = 1" using that by auto
    then show ?thesis
      by (auto simp: blockedBoard_def cellFree_def cellGet_def arrayGet_def nth_append)
  qed
  show ?thesis
    using spawnPiece_spec [OF r len] filled by (auto simp: w)
qed

subsection \<open>Moving the active piece\<close>

text \<open>
  Claim C8, as amended. \<^verbatim>\<open>movePiece(dx, dy)\<close> returns no value. With an active piece on a
  board of 20 rows: when the candidate placement is valid, the anchor becomes the
  candidate and nothing else changes; when it is not valid and \<open>dy \<le> 0\<close>, the state is
  unchanged; when it is not valid and \<open>dy > 0\<close>, \<^verbatim>\<open>movePiece\<close> itself locks the piece,
  clears the lines, scores them when there are any, and spawns the next piece.
\<close>

theorem movePiece_spec:
  assumes "currentPiece s = Some p" and "length (board s) = 20"
  shows "\<exists>valid.
           isValidMove s (pos_x (currentPosition s) + dx) (pos_y (currentPosition s) + dy) = Inr valid \<and>
           movePiece dx dy r s =
             (if valid then
                Inr (s\<lparr>currentPosition := \<lparr>pos_x = pos_x (currentPosition s) + dx,
                                           pos_y = pos_y (currentPosition s) + dy\<rparr>\<rparr>)
              else if dy > 0 then
                (case lockPiece s of
                   Inl e \<Rightarrow> Inl e
                 | Inr s1 \<Rightarrow>
                     (case clearLines s1 of
                        Inl e \<Rightarrow> Inl e
                      | Inr (s2, linesCleared) \<Rightarrow>
                          spawnPiece r (if linesCleared > 0 then updateScore linesCleared s2 else s2)))
              else Inr s)"
proof -
  have len: "nat rows \<le> length (board s)" using assms(2) by (simp add: rows_def)
  obtain valid where
    "isValidMove s (pos_x (currentPosition s) + dx) (pos_y (currentPosition s) + dy) = Inr valid"
    using isValidMove_scan [OF assms(1) len] by blast
  then show ?thesis
    using assms(1) by (simp add: movePiece_def lockAndSpawn_def Let_def)
qed

theorem movePiece_spec_witness:
  "movePiece (- 1) 0 3 freshGame = Inr (freshGame\<lparr>currentPosition := \<lparr>pos_x = 3, pos_y = 0\<rparr>\<rparr>)"
proof -
  have p: "currentPiece freshGame = Some (pieces ! 3)" by (simp add: freshGame_def)
  have len: "length (board freshGame) = 20"
    by (simp add: freshGame_def ngOnInit_def newTetris_def initializeBoard_def rows_def)
  have pos: "currentPosition freshGame = \<lparr>pos_x = 4, pos_y = 0\<rparr>"
    by (simp add: freshGame_def)
  have v: "isValidMove freshGame 3 0 = Inr True" by code_simp
  show ?thesis
    using movePiece_spec [OF p len, of "- 1" 0 3] by (auto simp: pos v)
qed

text \<open>
  The claim as stated says that an invalid candidate leaves the state unchanged. With the
  O piece resting on the floor of the empty board, the move down is invalid, and the call
  locks the piece (cell (19, 4) gets its colour) and spawns the next one.
\<close>

lemma restingGame_blocked: "isValidMove restingGame 4 19 = Inr False"
  by code_simp

lemma restingGame_locked:
  "map_sum id (\<lambda>s'. (board s' ! 19 ! 4, currentPosition s')) (movePiece 0 1 3 restingGame) =
   Inr (Some ''#f0f000'', \<lparr>pos_x = 4, pos_y = 0\<rparr>)"
  by code_simp

theorem movePiece_unchanged_counterexample:
  "isValidMove restingGame (pos_x (currentPosition restingGame) + 0)
                           (pos_y (currentPosition restingGame) + 1) = Inr False \<and>
   movePiece 0 1 3 restingGame \<noteq> Inr restingGame"
proof -
  have pos: "currentPosition restingGame = \<lparr>pos_x = 4, pos_y = 18\<rparr>"
    by (simp add: restingGame_def)
  have "movePiece 0 1 3 restingGame \<noteq> Inr restingGame"
  proof
    assume "movePiece 0 1 3 restingGame = Inr restingGame"
    then have "currentPosition restingGame = \<lparr>pos_x = 4, pos_y = 0\<rparr>"
      using restingGame_locked by simp
    then show False by (simp add: pos)
  qed
  then show ?thesis
    using restingGame_blocked by (simp add: pos)
qed

subsection \<open>The high score\<close>

text \<open>The scoring of cleared lines leaves a high score that is at least the score.\<close>

lemma updateScore_high_score:
  "highScore (updateScore linesCleared s) = max (highScore s) (score (updateScore linesCleared s))"
  by (simp add: updateScore_def Let_def)

lemma startGame_fresh: "startGame 3 (ngOnInit newTetris) = Inr freshGame"
  by code_simp

text \<open>
  Claim C4 says that after every operation that raises the score, a score above the high
  score replaces it, so that the score never exceeds the high score at the end of an
  operation. \<^verbatim>\<open>updateScore\<close> does so for the cleared lines. \<^verbatim>\<open>hardDrop\<close> adds 2 for each
  row of the descent without the comparison, and \<^verbatim>\<open>updateScore\<close> is called only when
  lines were cleared: in a new game with the O piece and no stored high score, a hard drop
  ends with score 36 and high score 0.
\<close>

theorem hardDrop_leaves_high_score:
  "startGame 3 (ngOnInit newTetris) = Inr freshGame \<and>
   map_option (map_sum id (\<lambda>s'. (score s', highScore s'))) (hardDrop 0 freshGame)
     = Some (Inr (36, 0))"
proof -
  have "map_option (map_sum id (\<lambda>s'. (score s', highScore s'))) (hardDrop 0 freshGame)
     = Some (Inr (36, 0))"
    by code_simp
  then show ?thesis using startGame_fresh by simp
qed

section \<open>The states of a session\<close>

text \<open>
  The theorems above assume a board of 20 rows (or of 20 rows of 10 strings), a square
  shape, or a drop interval that matches the level. Every state of a session has all of
  these: they are part of an invariant of the handlers. In a state with the invariant no
  handler throws, and the loop of \<^verbatim>\<open>hardDrop\<close> ends.
\<close>

subsection \<open>The invariant\<close>

lemma placed_cong:
  "board s' = board s \<Longrightarrow> currentPiece s' = currentPiece s \<Longrightarrow>
   currentPosition s' = currentPosition s \<Longrightarrow> placed s' = placed s"
  using isValidMove_cong [of s' s] by (simp add: placed_def)

lemma gameInv_cong:
  assumes "board s' = board s" "currentPiece s' = currentPiece s"
    "currentPosition s' = currentPosition s" "level s' = level s" "lines s' = lines s"
    "dropInterval s' = dropInterval s" "gameStarted s' = gameStarted s" "gameOver s' = gameOver s"
  shows "gameInv s' = gameInv s"
  using placed_cong [OF assms(1-3)] assms by (simp add: gameInv_def speedMatchesLevel_def)

lemma updateScore_same:
  "board (updateScore n s) = board s" "level (updateScore n s) = level s"
  "lines (updateScore n s) = lines s" "dropInterval (updateScore n s) = dropInterval s"
  "gameStarted (updateScore n s) = gameStarted s" "gameOver (updateScore n s) = gameOver s"
  by (simp_all add: updateScore_def Let_def)

lemma placed_in_range:
  assumes "placed s" and "wellFormed (board s)" and "currentPiece s = Some p"
  shows "\<forall>row < length (shape p). \<forall>col < length (shape p ! row).
           truthyNum (shape p ! row ! col) \<longrightarrow>
           0 \<le> pos_x (currentPosition s) + int col \<and> pos_x (currentPosition s) + int col < cols \<and>
           pos_y (currentPosition s) + int row < rows"
proof -
  have valid: "isValidMove s (pos_x (currentPosition s)) (pos_y (currentPosition s)) = Inr True"
    using assms(1,3) by (auto simp: placed_def)
  have len: "nat rows \<le> length (board s)" using assms(2) by (simp add: wellFormed_def)
  show ?thesis
    using valid unfolding isValidMove_scan [OF assms(3) len] by simp
qed

lemma pieces_hasFilled:
  assumes "r < 7"
  shows "hasFilled (shape (pieces ! r))"
  unfolding hasFilled_def using pieces_filled [OF assms] by blast

lemma rotate_hasFilled:
  assumes "isSquare m" and "hasFilled m"
  shows "hasFilled (rotate m)"
proof -
  obtain row col where rc: "row < length m" "col < length (m ! row)" "truthyNum (m ! row ! col)"
    using assms(2) by (auto simp: hasFilled_def)
  have col: "col < length m"
    using rc(1,2) assms(1) by (simp add: isSquare_def)
  have sq: "isSquare (rotate m)" "length (rotate m) = length m"
    using rotate_square [OF assms(1)] by auto
  have len: "length (rotate m ! col) = length m"
    using sq col by (simp add: isSquare_def)
  have "rotate m ! col ! (length m - 1 - row) = m ! row ! col"
    using rotate_nth [OF assms(1) col, of "length m - 1 - row"] rc(1) by simp
  then have "truthyNum (rotate m ! col ! (length m - 1 - row))"
    using rc(3) by simp
  moreover have "col < length (rotate m)" "length m - 1 - row < length (rotate m ! col)"
    using col sq(2) len rc(1) by simp_all
  ultimately show ?thesis
    unfolding hasFilled_def by blast
qed

lemma spawnPiece_inv:
  assumes "r < 7" and "wellFormed (board s)" and "speedMatchesLevel s"
    and "level s = lines s div 10 + 1" and "gameStarted s" and "\<not> gameOver s"
  shows "\<exists>s'. spawnPiece r s = Inr s' \<and> gameInv s'"
proof -
  let ?x = "cols div 2 - int (length (shape (pieces ! r) ! 0)) div 2"
  have len: "length (board s) = 20"
    using assms(2) by (simp add: wellFormed_def rows_def)
  obtain valid where valid:
    "isValidMove (s\<lparr>currentPiece := Some (pieces ! r)\<rparr>) ?x 0 = Inr valid"
    "spawnPiece r s =
       Inr (s\<lparr>currentPiece := Some (pieces ! r),
              currentPosition := \<lparr>pos_x = ?x, pos_y = 0\<rparr>,
              gameStarted := (if valid then gameStarted s else False),
              gameOver := (if valid then gameOver s else True)\<rparr>)"
    using spawnPiece_result [OF assms(1) len] by blast
  define s' where "s' = s\<lparr>currentPiece := Some (pieces ! r),
              currentPosition := \<lparr>pos_x = ?x, pos_y = 0\<rparr>,
              gameStarted := valid, gameOver := \<not> valid\<rparr>"
  have spawn: "spawnPiece r s = Inr s'"
    using valid(2) assms(5,6) by (simp add: s'_def)
  have sq: "isSquare (shape (pieces ! r))"
    using pieces_square assms(1) by (simp add: pieces_length)
  have "isValidMove s' (pos_x (currentPosition s')) (pos_y (currentPosition s')) =
        isValidMove (s\<lparr>currentPiece := Some (pieces ! r)\<rparr>) ?x 0"
    unfolding s'_def by (simp add: isValidMove_def)
  then have pl': "placed s'" if valid
    using that valid(1) sq pieces_hasFilled [OF assms(1)] unfolding placed_def
    by (simp add: s'_def)
  have "wellFormed (board s')" "speedMatchesLevel s'" "level s' = lines s' div 10 + 1"
    "gameStarted s' = valid" "gameOver s' = (\<not> valid)"
    using assms(2-4) by (simp_all add: s'_def speedMatchesLevel_def)
  then have "gameInv s'"
    unfolding gameInv_def using pl' by simp
  then show ?thesis using spawn by blast
qed

lemma lockAndSpawn_inv:
  assumes "gameInv s" and "gameStarted s" and "r < 7"
  shows "\<exists>s'. lockAndSpawn r s = Inr s' \<and> gameInv s'"
proof -
  have wf: "wellFormed (board s)" and speed: "speedMatchesLevel s"
    and lev: "level s = lines s div 10 + 1" and notover: "\<not> gameOver s" and pl: "placed s"
    using assms(1,2) by (auto simp: gameInv_def)
  obtain p where p: "currentPiece s = Some p"
    using pl by (auto simp: placed_def)
  note rng = placed_in_range [OF pl wf p]
  obtain b1 where s1: "lockPiece s = Inr (s\<lparr>board := b1\<rparr>)" "wellFormed b1"
    using lockPiece_wellFormed [OF p wf rng] by blast
  have wf1: "wellFormed (board (s\<lparr>board := b1\<rparr>))" using s1(2) by simp
  obtain s2 n where s2: "clearLines (s\<lparr>board := b1\<rparr>) = Inr (s2, n)" "wellFormed (board s2)"
    using clearLines_wellFormed [OF wf1] by blast
  obtain b l lv d where f2: "s2 = s\<lparr>board := b, lines := l, level := lv, dropInterval := d\<rparr>"
    using clearLines_fields(1) [OF s2(1)] by auto
  have speed2: "speedMatchesLevel s2" "level s2 = lines s2 div 10 + 1"
    using clearLines_fields(2,3) [OF s2(1)] speed lev by (simp_all add: speedMatchesLevel_def)
  have flags: "gameStarted s2" "\<not> gameOver s2"
    using assms(2) notover by (simp_all add: f2)
  define s3 where "s3 = (if n > 0 then updateScore n s2 else s2)"
  have step: "lockAndSpawn r s = spawnPiece r s3"
    by (simp add: lockAndSpawn_def s1(1) s2(1) s3_def)
  have s3: "wellFormed (board s3)" "speedMatchesLevel s3" "level s3 = lines s3 div 10 + 1"
    "gameStarted s3" "\<not> gameOver s3"
    unfolding s3_def using flags s2(2) speed2
    by (simp_all add: updateScore_same speedMatchesLevel_def)
  show ?thesis
    unfolding step using spawnPiece_inv [OF assms(3) s3] .
qed

lemma gameInv_position:
  assumes "gameInv s" and "gameStarted s"
    and "isValidMove s newX newY = Inr True"
  shows "gameInv (s\<lparr>currentPosition := \<lparr>pos_x = newX, pos_y = newY\<rparr>\<rparr>)"
proof -
  let ?s' = "s\<lparr>currentPosition := \<lparr>pos_x = newX, pos_y = newY\<rparr>\<rparr>"
  have "isValidMove ?s' newX newY = isValidMove s newX newY"
    by (rule isValidMove_cong) simp_all
  then have "placed ?s'"
    using assms by (auto simp: gameInv_def placed_def)
  then show ?thesis
    using assms(1,2) by (simp add: gameInv_def speedMatchesLevel_def)
qed

lemma movePiece_inv:
  assumes "gameInv s" and "\<not> gameOver s" and "r < 7"
  shows "\<exists>s'. movePiece dx dy r s = Inr s' \<and> gameInv s'"
proof (cases "currentPiece s")
  case None
  then show ?thesis using assms(1) by (simp add: movePiece_def)
next
  case (Some p)
  then have started: "gameStarted s"
    using assms(1,2) by (auto simp: gameInv_def)
  have len: "nat rows \<le> length (board s)"
    using assms(1) by (simp add: gameInv_def wellFormed_def)
  obtain valid where valid:
    "isValidMove s (pos_x (currentPosition s) + dx) (pos_y (currentPosition s) + dy) = Inr valid"
    using isValidMove_scan [OF Some len] by blast
  show ?thesis
  proof (cases valid)
    case True
    then have "movePiece dx dy r s =
                 Inr (s\<lparr>currentPosition := \<lparr>pos_x = pos_x (currentPosition s) + dx,
                                            pos_y = pos_y (currentPosition s) + dy\<rparr>\<rparr>)"
      using valid Some by (simp add: movePiece_def Let_def)
    then show ?thesis
      using gameInv_position [OF assms(1) started] valid True by simp
  next
    case False
    then have "movePiece dx dy r s = (if dy > 0 then lockAndSpawn r s else Inr s)"
      using valid Some by (simp add: movePiece_def Let_def)
    then show ?thesis
      using assms(1) lockAndSpawn_inv [OF assms(1) started assms(3)] by simp
  qed
qed

lemma rotatePiece_inv:
  assumes "gameInv s" and "gameStarted s"
  shows "\<exists>s'. rotatePiece s = Inr s' \<and> gameInv s'"
proof -
  have wf: "wellFormed (board s)" and pl: "placed s"
    using assms(1,2) by (auto simp: gameInv_def)
  obtain p where p: "currentPiece s = Some p" and sq: "isSquare (shape p)"
    and filled: "hasFilled (shape p)"
    using pl by (auto simp: placed_def)
  let ?s1 = "s\<lparr>currentPiece := Some (p\<lparr>shape := rotate (shape p)\<rparr>)\<rparr>"
  let ?valid = "\<lambda>offset. isValidMove ?s1 (pos_x (currentPosition s) + offset)
                                      (pos_y (currentPosition s)) = Inr True"
  have len: "nat rows \<le> length (board s)" using wf by (simp add: wellFormed_def)
  note res = rotatePiece_find [OF p len]
  show ?thesis
  proof (cases "find ?valid [0, 1, - 1, 2, - 2]")
    case None
    then have "rotatePiece s = Inr s"
      unfolding res by simp
    then show ?thesis using assms(1) by simp
  next
    case (Some offset)
    define s' where "s' = s\<lparr>currentPiece := Some (p\<lparr>shape := rotate (shape p)\<rparr>),
                      currentPosition :=
                        \<lparr>pos_x = pos_x (currentPosition s) + offset,
                         pos_y = pos_y (currentPosition s)\<rparr>\<rparr>"
    have r: "rotatePiece s = Inr s'"
      using Some unfolding res s'_def by simp
    have v: "?valid offset"
      using Some unfolding find_Some_iff by blast
    have "isValidMove s' (pos_x (currentPosition s')) (pos_y (currentPosition s')) =
          isValidMove ?s1 (pos_x (currentPosition s) + offset) (pos_y (currentPosition s))"
      unfolding s'_def by (simp add: isValidMove_def)
    then have "placed s'"
      using v rotate_square [OF sq] rotate_hasFilled [OF sq filled] unfolding placed_def
      by (simp add: s'_def)
    then have "gameInv s'"
      using assms(1,2) by (simp add: gameInv_def s'_def speedMatchesLevel_def)
    then show ?thesis using r by blast
  qed
qed

lemma dropLoop_inv:
  assumes "gameInv s" and "gameStarted s"
  shows "\<exists>s'. dropLoop s = Some (Inr s') \<and> gameInv s' \<and> gameStarted s'"
  using assms
proof (induction "nat (rows - pos_y (currentPosition s))" arbitrary: s rule: less_induct)
  case less
  let ?x = "pos_x (currentPosition s)" and ?y = "pos_y (currentPosition s)"
  let ?next = "s\<lparr>currentPosition := (currentPosition s)\<lparr>pos_y := ?y + 1\<rparr>,
                 score := score s + 2\<rparr>"
  have wf: "wellFormed (board s)" and pl: "placed s"
    using less.prems by (auto simp: gameInv_def)
  obtain p where p: "currentPiece s = Some p" and filled: "hasFilled (shape p)"
    using pl by (auto simp: placed_def)
  have len: "nat rows \<le> length (board s)" using wf by (simp add: wellFormed_def)
  note scan = isValidMove_scan [OF p len, of ?x "?y + 1"]
  obtain valid where valid: "isValidMove s ?x (?y + 1) = Inr valid"
    using scan by blast
  show ?case
  proof (cases valid)
    case False
    then have "dropLoop s = Some (Inr s)"
      using valid by (subst dropLoop.simps) simp
    then show ?thesis using less.prems by simp
  next
    case True
    have step: "dropLoop s = dropLoop ?next"
      using valid True by (subst dropLoop.simps) simp
    have "gameInv (s\<lparr>currentPosition := \<lparr>pos_x = ?x, pos_y = ?y + 1\<rparr>\<rparr>)"
      using gameInv_position [OF less.prems] valid True by simp
    moreover have "gameInv ?next =
        gameInv (s\<lparr>currentPosition := \<lparr>pos_x = ?x, pos_y = ?y + 1\<rparr>\<rparr>)"
      by (rule gameInv_cong) simp_all
    ultimately have inv: "gameInv ?next" "gameStarted ?next"
      using less.prems(2) by simp_all
    obtain row col where rc: "row < length (shape p)" "col < length (shape p ! row)"
        "truthyNum (shape p ! row ! col)"
      using filled by (auto simp: hasFilled_def)
    have "\<forall>row < length (shape p). \<forall>col < length (shape p ! row).
            truthyNum (shape p ! row ! col) \<longrightarrow>
            0 \<le> ?x + int col \<and> ?x + int col < cols \<and> ?y + 1 + int row < rows \<and>
            (0 \<le> ?y + 1 + int row \<longrightarrow> cellFree (board s) (?y + 1 + int row) (?x + int col))"
      using valid True unfolding scan by simp
    then have "?y + 1 + int row < rows"
      using rc by blast
    then have dec: "nat (rows - pos_y (currentPosition ?next)) < nat (rows - ?y)"
      by simp
    show ?thesis
      unfolding step using less.hyps [OF dec inv] .
  qed
qed

lemma hardDrop_inv:
  assumes "gameInv s" and "gameStarted s" and "r < 7"
  shows "\<exists>s'. hardDrop r s = Some (Inr s') \<and> gameInv s'"
proof -
  obtain p where p: "currentPiece s = Some p"
    using assms(1,2) by (auto simp: gameInv_def placed_def)
  obtain s1 where s1: "dropLoop s = Some (Inr s1)" "gameInv s1" "gameStarted s1"
    using dropLoop_inv [OF assms(1,2)] by blast
  have "hardDrop r s = Some (lockAndSpawn r s1)"
    by (simp add: hardDrop_def p s1(1))
  then show ?thesis
    using lockAndSpawn_inv [OF s1(2,3) assms(3)] by auto
qed

lemma startGame_inv:
  assumes "r < 7"
  shows "\<exists>s'. startGame r s = Inr s' \<and> gameInv s'"
proof -
  let ?s0 = "initializeBoard
          (s\<lparr>gameStarted := True, gameOver := False, isPaused := False,
             score := 0, level := 1, lines := 0, dropInterval := 1000\<rparr>)"
  have "wellFormed (board ?s0)" "speedMatchesLevel ?s0" "level ?s0 = lines ?s0 div 10 + 1"
    "gameStarted ?s0" "\<not> gameOver ?s0"
    by (simp_all add: initializeBoard_def wellFormed_initial speedMatchesLevel_def)
  from spawnPiece_inv [OF assms this] show ?thesis
    by (simp add: startGame_def)
qed

lemma togglePause_inv: "gameInv s \<Longrightarrow> gameInv (togglePause s)"
proof -
  have "gameInv (s\<lparr>isPaused := \<not> isPaused s\<rparr>) = gameInv s"
    by (rule gameInv_cong) simp_all
  then show "gameInv s \<Longrightarrow> gameInv (togglePause s)"
    by (simp add: togglePause_def)
qed

lemma init_inv: "gameInv (ngOnInit (newTetris\<lparr>tetrisHighScore := stored\<rparr>))"
  by (simp add: ngOnInit_def newTetris_def initializeBoard_def gameInv_def wellFormed_initial
        speedMatchesLevel_def split: option.splits)

lemma handleKeyPress_inv:
  assumes "gameInv s" and "r < 7"
  shows "\<exists>s'. handleKeyPress k r s = Some (Inr s') \<and> gameInv s'"
proof (cases "gameStarted s \<and> \<not> gameOver s")
  case False
  then have "handleKeyPress k r s = Some (Inr s) \<or> handleKeyPress k r s = Some (startGame r s)"
    by (auto simp: handleKeyPress_def restartGame_def)
  then show ?thesis
    using assms(1) startGame_inv [OF assms(2), of s] by auto
next
  case True
  show ?thesis
  proof (cases "k = ''p'' \<or> k = ''P'' \<or> isPaused s")
    case pausing: True
    then have "handleKeyPress k r s = Some (Inr (togglePause s)) \<or>
               handleKeyPress k r s = Some (Inr s)"
      using True by (auto simp: handleKeyPress_def)
    then show ?thesis
      using assms(1) togglePause_inv [OF assms(1)] by auto
  next
    case playing: False
    have "handleKeyPress k r s =
           (if k = ''ArrowLeft'' then Some (movePiece (- 1) 0 r s)
            else if k = ''ArrowRight'' then Some (movePiece 1 0 r s)
            else if k = ''ArrowDown'' then Some (movePiece 0 1 r s)
            else if k = ''ArrowUp'' then Some (rotatePiece s)
            else if k = '' '' then hardDrop r s
            else Some (Inr s))"
      using True playing by (simp add: handleKeyPress_def)
    then show ?thesis
      using assms(1) True movePiece_inv [OF assms(1) _ assms(2)]
        rotatePiece_inv [OF assms(1)] hardDrop_inv [OF assms(1) _ assms(2)]
      by simp
  qed
qed

lemma update_inv:
  assumes "gameInv s" and "r < 7"
  shows "\<exists>s'. update deltaTime r s = Inr s' \<and> gameInv s'"
proof (cases "isPaused s \<or> gameOver s \<or> \<not> deltaTime > dropInterval s")
  case True
  then have "update deltaTime r s = Inr s" by (auto simp: update_def)
  then show ?thesis using assms(1) by simp
next
  case False
  then have "update deltaTime r s = movePiece 0 1 r s" "\<not> gameOver s"
    by (simp_all add: update_def)
  then show ?thesis
    using movePiece_inv [OF assms(1) _ assms(2)] by simp
qed

text \<open>Every state of a session has the invariant.\<close>

lemma reachable_inv: "reachable s \<Longrightarrow> gameInv s"
proof (induction rule: reachable.induct)
  case (init stored)
  show ?case by (rule init_inv)
next
  case (key s r k s')
  then show ?case using handleKeyPress_inv [of s r k] by auto
next
  case (tick s r deltaTime s')
  then show ?case using update_inv [of s r deltaTime] by auto
next
  case (start s r s')
  then show ?case using startGame_inv [of r s] by auto
next
  case (pause s)
  show ?case using pause.IH by (rule togglePause_inv)
qed

text \<open>
  In a state of a session, with a random choice among the seven pieces, every handler
  returns, without an exception, a state of the session.
\<close>

lemma reachable_total:
  assumes "reachable s" and "r < 7"
  shows "\<exists>s'. handleKeyPress k r s = Some (Inr s') \<and> reachable s'"
    and "\<exists>s'. update deltaTime r s = Inr s' \<and> reachable s'"
    and "\<exists>s'. startGame r s = Inr s' \<and> reachable s'"
proof -
  note inv = reachable_inv [OF assms(1)]
  show "\<exists>s'. handleKeyPress k r s = Some (Inr s') \<and> reachable s'"
    using handleKeyPress_inv [OF inv assms(2), of k] reachable.key [OF assms] by blast
  show "\<exists>s'. update deltaTime r s = Inr s' \<and> reachable s'"
    using update_inv [OF inv assms(2), of deltaTime] reachable.tick [OF assms] by blast
  show "\<exists>s'. startGame r s = Inr s' \<and> reachable s'"
    using startGame_inv [OF assms(2), of s] reachable.start [OF assms] by blast
qed

subsection \<open>Level and speed\<close>

text \<open>
  Claim C6. After a call of \<^verbatim>\<open>clearLines\<close> that cleared at least one line, the level is
  \<open>lines div 10 + 1\<close> and the drop interval is \<open>max 100 (1000 - (level - 1) * 100)\<close>. The
  code writes the interval only when the level changes, so for the call alone the interval
  must have matched the level before; in a session it always does, and both equations hold
  in every state of a session. In particular 25 lines give level 3, level 3 gives 800 ms
  and level 20 gives 100 ms.
\<close>

theorem clearLines_level:
  "(speedMatchesLevel s \<and> clearLines s = Inr (s', linesCleared) \<and> linesCleared > 0 \<longrightarrow>
      lines s' = lines s + linesCleared \<and>
      level s' = lines s' div 10 + 1 \<and>
      dropInterval s' = max 100 (1000 - (level s' - 1) * 100) \<and>
      (lines s' = 25 \<longrightarrow> level s' = 3) \<and>
      (level s' = 3 \<longrightarrow> dropInterval s' = 800) \<and>
      (level s' = 20 \<longrightarrow> dropInterval s' = 100)) \<and>
   (reachable t \<longrightarrow>
      level t = lines t div 10 + 1 \<and>
      dropInterval t = max 100 (1000 - (level t - 1) * 100))"
proof -
  have "lines s' = lines s + linesCleared \<and>
      level s' = lines s' div 10 + 1 \<and>
      dropInterval s' = max 100 (1000 - (level s' - 1) * 100) \<and>
      (lines s' = 25 \<longrightarrow> level s' = 3) \<and>
      (level s' = 3 \<longrightarrow> dropInterval s' = 800) \<and>
      (level s' = 20 \<longrightarrow> dropInterval s' = 100)"
    if speed: "speedMatchesLevel s" and clear: "clearLines s = Inr (s', linesCleared)"
      and some: "linesCleared > 0"
  proof -
    have "lines s' = lines s + linesCleared \<and> level s' = lines s' div 10 + 1"
      using clearLines_fields(4) [OF clear some] .
    moreover have "dropInterval s' = max 100 (1000 - (level s' - 1) * 100)"
      using clearLines_fields(2) [OF clear speed] by (simp add: speedMatchesLevel_def)
    ultimately show ?thesis by auto
  qed
  moreover have "level t = lines t div 10 + 1 \<and>
      dropInterval t = max 100 (1000 - (level t - 1) * 100)"
    if "reachable t"
    using reachable_inv [OF that] by (simp add: gameInv_def speedMatchesLevel_def)
  ultimately show ?thesis by blast
qed

theorem clearLines_level_witness:
  "(\<exists>s'. clearLines (newTetris\<lparr>board := demoBoard, lines := 18, level := 2, dropInterval := 900\<rparr>)
          = Inr (s', 2) \<and>
        lines s' = 20 \<and> level s' = 3 \<and> dropInterval s' = 800) \<and>
   reachable (ngOnInit newTetris) \<and>
   level (ngOnInit newTetris) = 1 \<and> dropInterval (ngOnInit newTetris) = 1000"
proof -
  let ?s = "newTetris\<lparr>board := demoBoard, lines := 18, level := 2, dropInterval := 900\<rparr>"
  have len: "length (board ?s) = 20" by (simp add: demoBoard_length)
  have speed: "speedMatchesLevel ?s" by (simp add: speedMatchesLevel_def)
  have "length (filter isFull (board ?s)) = 2"
    using rows_3_7(1) [OF demoBoard_length demoBoard_full] by simp
  then obtain s' where s': "clearLines ?s = Inr (s', 2)"
    using clearLines_board [of ?s] len by (auto simp: rows_def)
  have "newTetris\<lparr>tetrisHighScore := None\<rparr> = newTetris"
    by (simp add: newTetris_def)
  then have init: "reachable (ngOnInit newTetris)"
    using reachable.init [of None] by simp
  have "lines s' = 20 \<and> level s' = 3 \<and> dropInterval s' = 800"
    using clearLines_level [of ?s s' 2] speed s' by simp
  moreover have "level (ngOnInit newTetris) = 1 \<and> dropInterval (ngOnInit newTetris) = 1000"
    using clearLines_level [of ?s s' 2 "ngOnInit newTetris"] init
    by (simp add: ngOnInit_def newTetris_def initializeBoard_def)
  ultimately show ?thesis
    using s' init by blast
qed

end
